theory Spec2Isabelle
  imports Main "HOL-Library.Word"
begin

section \<open>Servo configuration and safe operating ranges\<close>

text \<open>
  The constant tables of \<^verbatim>\<open>main.cpp\<close>. Channels are array indices \<open>0..5\<close>; the
  letter of channel \<open>i\<close> is \<open>SERVO_NAMES ! i\<close>.
\<close>

definition NUM_SERVOS :: nat where
  "NUM_SERVOS = 6"

definition SERVO_NAMES :: "char list" where
  "SERVO_NAMES = ''ABCDEF''"

definition SERVO_PINS :: "int list" where
  "SERVO_PINS = [4, 5, 6, 7, 8, 9]"

definition minAngles :: "int list" where
  "minAngles = [0, 45, 0, 90, 0, 90]"

definition maxAngles :: "int list" where
  "maxAngles = [180, 90, 85, 180, 180, 180]"

section \<open>Global state\<close>

text \<open>
  The globals of the sketch, and what it does to the outside. The two output streams
  are modelled by the text written to them so far, the servo library by the attachment
  flag of every \<^verbatim>\<open>Servo\<close> object (what \<^verbatim>\<open>attached()\<close> returns) together with a log of
  the calls made to the objects, and the LED pin by its level. \<^verbatim>\<open>millis()\<close> is an
  \<^verbatim>\<open>unsigned long\<close>, a 32-bit word whose subtraction wraps; the reading is a parameter
  of every operation that asks for the time. Angles are \<^verbatim>\<open>int\<close>, 16 bits wide
  on this board. A requested angle is stored only after the range test, and the sketch
  only ever adds or subtracts one between two values of the range tables, so the stored
  angles are modelled by integers without a bound; the parsed angle is the 16-bit
  value that \<^verbatim>\<open>atoi\<close> returns. \<open>btBufferIndex\<close> runs from 0 to 31 and is a natural number;
  \<open>btCommandBuffer\<close> is the whole array of 32 characters.
\<close>

datatype stream = Serial | BTSerial

datatype servo_call = ServoAttach nat int | ServoDetach nat | ServoWrite nat int

record controller =
  servos_attached :: "bool list"
  currentAngles :: "int list"
  targetAngles :: "int list"
  moveSpeed :: int
  activeServo :: int
  lastInfoMs :: "32 word"
  lastMoveMs :: "32 word"
  btCommandBuffer :: "char list"
  btBufferIndex :: nat
  serial_out :: string
  bt_out :: string
  led :: bool
  servo_log :: "servo_call list"

definition NUL :: char where
  "NUL = CHR 0x00"

definition power_on :: controller where
  "power_on =
     \<lparr> servos_attached = replicate NUM_SERVOS False,
       currentAngles = replicate NUM_SERVOS 0,
       targetAngles = replicate NUM_SERVOS 0,
       moveSpeed = 20,
       activeServo = - 1,
       lastInfoMs = 0,
       lastMoveMs = 0,
       btCommandBuffer = replicate 32 NUL,
       btBufferIndex = 0,
       serial_out = [],
       bt_out = [],
       led = False,
       servo_log = [] \<rparr>"

section \<open>Library routines the sketch calls\<close>

subsection \<open>Stream output\<close>

definition CRLF :: string where
  "CRLF = [CHR 0x0D, CHR 0x0A]"

definition print_str :: "stream \<Rightarrow> string \<Rightarrow> controller \<Rightarrow> controller" where
  "print_str out txt s =
     (case out of
        Serial \<Rightarrow> s\<lparr>serial_out := serial_out s @ txt\<rparr>
      | BTSerial \<Rightarrow> s\<lparr>bt_out := bt_out s @ txt\<rparr>)"

definition println :: "stream \<Rightarrow> string \<Rightarrow> controller \<Rightarrow> controller" where
  "println out txt s = print_str out (txt @ CRLF) s"

subsection \<open>Decimal output (\<^verbatim>\<open>%d\<close>, \<^verbatim>\<open>print(int)\<close>)\<close>

definition digit_char :: "nat \<Rightarrow> char" where
  "digit_char n = ''0123456789'' ! n"

function show_nat :: "nat \<Rightarrow> string" where
  "show_nat n = (if n < 10 then [digit_char n] else show_nat (n div 10) @ [digit_char (n mod 10)])"
  by pat_completeness auto
termination
  by (relation "measure (\<lambda>n. n)") auto

declare show_nat.simps [simp del]

definition show_int :: "int \<Rightarrow> string" where
  "show_int i = (if i < 0 then CHR ''-'' # show_nat (nat (- i)) else show_nat (nat i))"

subsection \<open>\<^verbatim>\<open>toupper\<close>, \<^verbatim>\<open>strlen\<close>, \<^verbatim>\<open>atoi\<close>\<close>

definition toupper :: "char \<Rightarrow> char" where
  "toupper c =
     (case map_of (zip ''abcdefghijklmnopqrstuvwxyz'' ''ABCDEFGHIJKLMNOPQRSTUVWXYZ'') c of
        Some u \<Rightarrow> u
      | None \<Rightarrow> c)"

text \<open>
  A \<^verbatim>\<open>char*\<close> handed to the dispatcher is read up to its first NUL byte.
\<close>

definition c_str :: "char list \<Rightarrow> string" where
  "c_str buf = takeWhile (\<lambda>c. c \<noteq> NUL) buf"

definition isspace :: "char \<Rightarrow> bool" where
  "isspace c = (c \<in> set [CHR '' '', CHR 0x09, CHR 0x0A, CHR 0x0B, CHR 0x0C, CHR 0x0D])"

text \<open>
  \<^verbatim>\<open>atoi\<close> returns an \<^verbatim>\<open>int\<close>, which on the ATmega4809 of the Nano Every is 16 bits
  wide. It skips leading white space, takes an optional sign and then the longest run
  of decimal digits, \<open>0\<close> when there is none. The library routine accumulates the
  digits in that 16-bit register, so the value of a digit string beyond the range of
  \<^verbatim>\<open>int\<close> wraps around modulo \<open>2 ^ 16\<close>; the result is read as a signed number.
\<close>

definition digit_val :: "char \<Rightarrow> 16 word option" where
  "digit_val c = map_of (zip ''0123456789'' [0, 1, 2, 3, 4, 5, 6, 7, 8, 9]) c"

fun atoi_digits :: "16 word \<Rightarrow> string \<Rightarrow> 16 word" where
  "atoi_digits acc [] = acc"
| "atoi_digits acc (c # cs) =
     (case digit_val c of
        Some d \<Rightarrow> atoi_digits (acc * 10 + d) cs
      | None \<Rightarrow> acc)"

definition atoi :: "string \<Rightarrow> int" where
  "atoi str =
     sint
       (case dropWhile isspace str of
          [] \<Rightarrow> 0
        | c # cs \<Rightarrow>
            if c = CHR ''-'' then - atoi_digits 0 cs
            else if c = CHR ''+'' then atoi_digits 0 cs
            else atoi_digits 0 (c # cs))"

subsection \<open>The \<^verbatim>\<open>Servo\<close> objects\<close>

text \<open>
  \<^verbatim>\<open>attach\<close> sets the flag of the object (six objects are within the limit of the
  library, so it does not fail), \<^verbatim>\<open>detach\<close> clears it, \<^verbatim>\<open>write\<close> leaves it alone.
\<close>

definition servo_detach :: "nat \<Rightarrow> controller \<Rightarrow> controller" where
  "servo_detach i s =
     s\<lparr>servos_attached := (servos_attached s)[i := False],
       servo_log := servo_log s @ [ServoDetach i]\<rparr>"

definition servo_attach :: "nat \<Rightarrow> int \<Rightarrow> controller \<Rightarrow> controller" where
  "servo_attach i pin s =
     s\<lparr>servos_attached := (servos_attached s)[i := True],
       servo_log := servo_log s @ [ServoAttach i pin]\<rparr>"

definition servo_write :: "nat \<Rightarrow> int \<Rightarrow> controller \<Rightarrow> controller" where
  "servo_write i v s = s\<lparr>servo_log := servo_log s @ [ServoWrite i v]\<rparr>"

section \<open>Helpers\<close>

function detachLoop :: "int \<Rightarrow> nat \<Rightarrow> controller \<Rightarrow> controller" where
  "detachLoop keepIdx i s =
     (if i < NUM_SERVOS then
        detachLoop keepIdx (Suc i)
          (if int i \<noteq> keepIdx \<and> servos_attached s ! i then servo_detach i s else s)
      else s)"
  by pat_completeness auto
termination
  by (relation "measure (\<lambda>(keepIdx, i, s). NUM_SERVOS - i)") auto

declare detachLoop.simps [simp del]

definition detachAllExcept :: "int \<Rightarrow> controller \<Rightarrow> controller" where
  "detachAllExcept keepIdx s = detachLoop keepIdx 0 s"

definition attachIfNeeded :: "nat \<Rightarrow> controller \<Rightarrow> controller" where
  "attachIfNeeded idx s =
     (if \<not> servos_attached s ! idx then servo_attach idx (SERVO_PINS ! idx) s else s)"

section \<open>\<^verbatim>\<open>setup()\<close>\<close>

function initAngles :: "nat \<Rightarrow> controller \<Rightarrow> controller" where
  "initAngles i s =
     (if i < NUM_SERVOS then
        initAngles (Suc i)
          (s\<lparr>currentAngles := (currentAngles s)[i := minAngles ! i],
             targetAngles := (targetAngles s)[i := minAngles ! i]\<rparr>)
      else s)"
  by pat_completeness auto
termination
  by (relation "measure (\<lambda>(i, s). NUM_SERVOS - i)") auto

declare initAngles.simps [simp del]

text \<open>
  Opening the two ports and \<^verbatim>\<open>pinMode\<close> leave no trace in the state above. No
  \<^verbatim>\<open>Servo\<close> object is attached by \<open>setup\<close>.
\<close>

definition setup_sketch :: "32 word \<Rightarrow> controller \<Rightarrow> controller" where
  "setup_sketch now s =
     (let s1 = initAngles 0 s;
          s2 = println Serial ''--- 6-DOF Servo Control Ready ---'' s1;
          s3 = println Serial
                 ''Send 'SERVOANGLE' (e.g., A90). Send '?' for HELP. Send 'G' for STATUS.'' s2;
          s4 = println BTSerial
                 ''6-DOF Control Ready. Use 'SERVOANGLE' (e.g., A90). '?'=HELP, 'G'=STATUS'' s3
      in s4\<lparr>lastInfoMs := now\<rparr>)"

section \<open>\<^verbatim>\<open>processCommand\<close>\<close>

definition range_line :: "string \<Rightarrow> nat \<Rightarrow> stream \<Rightarrow> controller \<Rightarrow> controller" where
  "range_line label i out s =
     println out (show_int (maxAngles ! i))
       (print_str out ''-'' (print_str out (show_int (minAngles ! i)) (print_str out label s)))"

definition cmd_help :: "stream \<Rightarrow> controller \<Rightarrow> controller" where
  "cmd_help out s =
     (let s0 = println out ''HELP: Send SERVOANGLE (e.g., A90 or F150). Ranges:'' s;
          s1 = range_line '' A: '' 0 out s0;
          s2 = range_line '' B: '' 1 out s1;
          s3 = range_line '' C: '' 2 out s2;
          s4 = range_line '' D: '' 3 out s3;
          s5 = range_line '' E: '' 4 out s4
      in range_line '' F: '' 5 out s5)"

function statusLoop :: "stream \<Rightarrow> nat \<Rightarrow> controller \<Rightarrow> controller" where
  "statusLoop out i s =
     (if i < NUM_SERVOS then
        statusLoop out (Suc i)
          (print_str out (show_int (currentAngles s ! i))
            (print_str out ''=''
              (print_str out [SERVO_NAMES ! i]
                (print_str out '' '' s))))
      else s)"
  by pat_completeness auto
termination
  by (relation "measure (\<lambda>(out, i, s). NUM_SERVOS - i)") auto

declare statusLoop.simps [simp del]

definition cmd_status :: "stream \<Rightarrow> controller \<Rightarrow> controller" where
  "cmd_status out s =
     println out (show_int (moveSpeed s))
       (print_str out '' | SPEED='' (statusLoop out 0 (print_str out ''STATUS:'' s)))"

function findServo :: "char \<Rightarrow> nat \<Rightarrow> int" where
  "findServo u i =
     (if i < NUM_SERVOS then (if u = SERVO_NAMES ! i then int i else findServo u (Suc i))
      else - 1)"
  by pat_completeness auto
termination
  by (relation "measure (\<lambda>(u, i). NUM_SERVOS - i)") auto

declare findServo.simps [simp del]

definition ok_text :: "nat \<Rightarrow> int \<Rightarrow> string" where
  "ok_text i newAngle =
     ''OK:'' @ [SERVO_NAMES ! i] @ ''->'' @ show_int newAngle @ '' (range '' @
     show_int (minAngles ! i) @ ''-'' @ show_int (maxAngles ! i) @ '')''"

definition err_range_text :: "nat \<Rightarrow> string" where
  "err_range_text i =
     ''ERR:'' @ [SERVO_NAMES ! i] @ '' range '' @
     show_int (minAngles ! i) @ ''-'' @ show_int (maxAngles ! i)"

definition cmd_move :: "nat \<Rightarrow> int \<Rightarrow> stream \<Rightarrow> controller \<Rightarrow> controller" where
  "cmd_move servoIndex newAngle out s =
     (let s1 = (if activeServo s \<noteq> - 1 \<and> activeServo s \<noteq> int servoIndex then
                  (if servos_attached s ! nat (activeServo s)
                   then servo_detach (nat (activeServo s)) s else s)
                else s);
          s2 = detachAllExcept (int servoIndex) s1;
          s3 = attachIfNeeded servoIndex s2;
          s4 = s3\<lparr>targetAngles := (targetAngles s3)[servoIndex := newAngle]\<rparr>;
          s5 = s4\<lparr>activeServo := int servoIndex\<rparr>;
          s6 = println out (ok_text servoIndex newAngle) s5;
          s7 = println Serial (ok_text servoIndex newAngle) s6
      in s7\<lparr>led := True\<rparr>)"

definition cmd_range_err :: "nat \<Rightarrow> stream \<Rightarrow> controller \<Rightarrow> controller" where
  "cmd_range_err servoIndex out s =
     println Serial (err_range_text servoIndex) (println out (err_range_text servoIndex) s)"

definition cmd_unknown :: "string \<Rightarrow> stream \<Rightarrow> controller \<Rightarrow> controller" where
  "cmd_unknown cmdStr out s =
     println out [CHR 0x27] (print_str out cmdStr (print_str out (''ERR:Unknown cmd '' @ [CHR 0x27]) s))"

definition processCommand :: "string \<Rightarrow> stream \<Rightarrow> controller \<Rightarrow> bool \<times> controller" where
  "processCommand cmdStr out s =
     (if cmdStr = [] then (False, s)
      else
        let u = toupper (hd cmdStr) in
        if u = CHR ''?'' \<or> u = CHR ''H'' then (True, cmd_help out s)
        else if u = CHR ''G'' then (True, cmd_status out s)
        else
          let servoIndex = findServo u 0 in
          if servoIndex \<noteq> - 1 \<and> length cmdStr > 1 then
            (let newAngle = atoi (tl cmdStr) in
             if newAngle \<ge> minAngles ! nat servoIndex \<and> newAngle \<le> maxAngles ! nat servoIndex
             then (True, cmd_move (nat servoIndex) newAngle out s)
             else (True, cmd_range_err (nat servoIndex) out s))
          else (True, cmd_unknown cmdStr out s))"

section \<open>\<^verbatim>\<open>loop\<close>\<close>

subsection \<open>Command parsing\<close>

definition is_eol :: "char \<Rightarrow> bool" where
  "is_eol c = (c = CHR 0x0A \<or> c = CHR 0x0D)"

definition feed :: "32 word \<Rightarrow> char \<Rightarrow> controller \<Rightarrow> controller" where
  "feed now c s =
     (if is_eol c then
        (if btBufferIndex s > 0 then
           (let s1 = s\<lparr>btCommandBuffer := (btCommandBuffer s)[btBufferIndex s := NUL]\<rparr>;
                s2 = snd (processCommand (c_str (btCommandBuffer s1)) BTSerial s1)
            in s2\<lparr>btBufferIndex := 0, lastInfoMs := now\<rparr>)
         else s)
      else if btBufferIndex s < 31 then
        s\<lparr>btCommandBuffer := (btCommandBuffer s)[btBufferIndex s := c],
          btBufferIndex := btBufferIndex s + 1\<rparr>
      else s)"

fun drain :: "32 word \<Rightarrow> char list \<Rightarrow> controller \<Rightarrow> controller" where
  "drain now [] s = s"
| "drain now (c # cs) s = drain now cs (feed now c s)"

subsection \<open>Smooth movement\<close>

definition done_text :: "nat \<Rightarrow> int \<Rightarrow> string" where
  "done_text i angle = ''DONE:'' @ [SERVO_NAMES ! i] @ ''='' @ show_int angle"

definition due :: "32 word \<Rightarrow> controller \<Rightarrow> bool" where
  "due now s = (now - lastMoveMs s \<ge> word_of_int (moveSpeed s))"

definition moveStep :: "32 word \<Rightarrow> controller \<Rightarrow> controller" where
  "moveStep now s =
     (let s1 = s\<lparr>lastMoveMs := now\<rparr>;
          i = nat (activeServo s1)
      in if currentAngles s1 ! i \<noteq> targetAngles s1 ! i then
           (let s2 = (if currentAngles s1 ! i < targetAngles s1 ! i
                      then s1\<lparr>currentAngles := (currentAngles s1)[i := currentAngles s1 ! i + 1]\<rparr>
                      else s1\<lparr>currentAngles := (currentAngles s1)[i := currentAngles s1 ! i - 1]\<rparr>)
            in servo_write i (currentAngles s2 ! i) s2)
         else
           (let s2 = (if servos_attached s1 ! i then servo_detach i s1 else s1);
                s3 = s2\<lparr>activeServo := - 1\<rparr>;
                s4 = s3\<lparr>led := False\<rparr>;
                s5 = println Serial (done_text i (currentAngles s4 ! i)) s4
            in println BTSerial (done_text i (currentAngles s4 ! i)) s5))"

definition moveTick :: "32 word \<Rightarrow> controller \<Rightarrow> controller" where
  "moveTick now s =
     (if activeServo s \<noteq> - 1 then (if due now s then moveStep now s else s) else s)"

subsection \<open>Periodic READY hint\<close>

definition ready_text :: string where
  "ready_text = ''READY: Use A..F+angle (e.g., A90, F150), '?' for HELP, 'G' for STATUS''"

definition readyHint :: "32 word \<Rightarrow> controller \<Rightarrow> controller" where
  "readyHint now s =
     (if activeServo s = - 1 \<and> now - lastInfoMs s > 5000 then
        (println Serial ready_text (println BTSerial ready_text s))\<lparr>lastInfoMs := now\<rparr>
      else s)"

text \<open>
  One pass of \<open>loop\<close>: the bytes available on the Bluetooth port are drained, then the
  movement block runs, then the hint. \<open>now\<close> is the clock reading of the pass; the
  theorems below hold for every reading, and none of them relates two readings of one
  pass.
\<close>

definition loop :: "32 word \<Rightarrow> char list \<Rightarrow> controller \<Rightarrow> controller" where
  "loop now avail s = readyHint now (moveTick now (drain now avail s))"

section \<open>Properties of the controller state\<close>

text \<open>
  The arrays have \<open>NUM_SERVOS\<close> entries and \<open>activeServo\<close> is \<open>-1\<close> or an index.
\<close>

definition wf :: "controller \<Rightarrow> bool" where
  "wf s =
     (length (servos_attached s) = NUM_SERVOS \<and>
      length (currentAngles s) = NUM_SERVOS \<and>
      length (targetAngles s) = NUM_SERVOS \<and>
      - 1 \<le> activeServo s \<and> activeServo s < int NUM_SERVOS)"

text \<open>
  The power policy: no two \<^verbatim>\<open>Servo\<close> objects are attached at once, and the
  channel that \<open>activeServo\<close> names is attached while every other one is not.
\<close>

definition single_active :: "controller \<Rightarrow> bool" where
  "single_active s =
     ((\<forall>i\<in>set [0..<NUM_SERVOS]. \<forall>j\<in>set [0..<NUM_SERVOS].
         servos_attached s ! i \<and> servos_attached s ! j \<longrightarrow> i = j) \<and>
      (\<forall>c\<in>set [0..<NUM_SERVOS]. activeServo s = int c \<longrightarrow>
         servos_attached s ! c \<and>
         (\<forall>j\<in>set [0..<NUM_SERVOS]. j \<noteq> c \<longrightarrow> \<not> servos_attached s ! j)))"

text \<open>Current and target angle of every channel lie in its safe range.\<close>

definition angles_ok :: "controller \<Rightarrow> bool" where
  "angles_ok s =
     (\<forall>i\<in>set [0..<NUM_SERVOS].
        minAngles ! i \<le> currentAngles s ! i \<and> currentAngles s ! i \<le> maxAngles ! i \<and>
        minAngles ! i \<le> targetAngles s ! i \<and> targetAngles s ! i \<le> maxAngles ! i)"

text \<open>
  The states the sketch can be in between two passes of \<open>loop\<close>: the one \<open>setup\<close>
  leaves after power-on, and every state a pass of \<open>loop\<close> leads to, for any clock
  reading and any bytes available on the Bluetooth port.
\<close>

inductive reachable :: "controller \<Rightarrow> bool" where
  boot: "reachable (setup_sketch now power_on)"
| pass: "reachable s \<Longrightarrow> reachable (loop now avail s)"



text \<open>
  The commands the dispatcher treats as motion commands: the first character, in upper
  case, is none of \<^verbatim>\<open>?\<close>, \<^verbatim>\<open>H\<close>, \<^verbatim>\<open>G\<close>, names a channel, and something follows it.
\<close>

definition is_motion_cmd :: "string \<Rightarrow> bool" where
  "is_motion_cmd cmdStr =
     (let u = toupper (hd cmdStr) in
      u \<noteq> CHR ''?'' \<and> u \<noteq> CHR ''H'' \<and> u \<noteq> CHR ''G'' \<and>
      findServo u 0 \<noteq> - 1 \<and> length cmdStr > 1)"

text \<open>
  Passes of \<open>loop\<close> with no input, one per clock reading of the list; \<open>throttled\<close>
  says that at each of them the movement delay has elapsed, and \<open>due_schedule\<close> is the
  list of readings that take each pass as soon as it has.
\<close>

fun ticks :: "32 word list \<Rightarrow> controller \<Rightarrow> controller" where
  "ticks [] s = s"
| "ticks (t # ts) s = ticks ts (loop t [] s)"

fun throttled :: "32 word list \<Rightarrow> controller \<Rightarrow> bool" where
  "throttled [] s = True"
| "throttled (t # ts) s = (due t s \<and> throttled ts (loop t [] s))"

fun due_schedule :: "nat \<Rightarrow> controller \<Rightarrow> 32 word list" where
  "due_schedule 0 s = []"
| "due_schedule (Suc n) s =
     (lastMoveMs s + word_of_int (moveSpeed s)) #
     due_schedule n (loop (lastMoveMs s + word_of_int (moveSpeed s)) [] s)"

section \<open>Output, servo and loop lemmas\<close>

lemma print_str_frame [simp]:
  "servos_attached (print_str out t s) = servos_attached s"
  "currentAngles (print_str out t s) = currentAngles s"
  "targetAngles (print_str out t s) = targetAngles s"
  "activeServo (print_str out t s) = activeServo s"
  "moveSpeed (print_str out t s) = moveSpeed s"
  "lastMoveMs (print_str out t s) = lastMoveMs s"
  "lastInfoMs (print_str out t s) = lastInfoMs s"
  "btCommandBuffer (print_str out t s) = btCommandBuffer s"
  "btBufferIndex (print_str out t s) = btBufferIndex s"
  "led (print_str out t s) = led s"
  "servo_log (print_str out t s) = servo_log s"
  by (cases out; simp add: print_str_def)+

lemma print_str_out [simp]:
  "bt_out (print_str BTSerial t s) = bt_out s @ t"
  "serial_out (print_str BTSerial t s) = serial_out s"
  "serial_out (print_str Serial t s) = serial_out s @ t"
  "bt_out (print_str Serial t s) = bt_out s"
  by (simp_all add: print_str_def)

lemma print_str_print_str: "print_str out b (print_str out a s) = print_str out (a @ b) s"
  by (cases out) (simp_all add: print_str_def)

lemma statusLoop_print: "\<exists>msg. statusLoop out i s = print_str out msg s"
proof (induction out i s rule: statusLoop.induct)
  case (1 out i s)
  show ?case
  proof (cases "i < NUM_SERVOS")
    case True
    from 1 [OF True] obtain msg where
      "statusLoop out (Suc i)
         (print_str out (show_int (currentAngles s ! i))
           (print_str out ''=''
             (print_str out [SERVO_NAMES ! i] (print_str out '' '' s)))) =
       print_str out msg
         (print_str out (show_int (currentAngles s ! i))
           (print_str out ''=''
             (print_str out [SERVO_NAMES ! i] (print_str out '' '' s))))"
      by blast
    then have "statusLoop out i s =
       print_str out ('' '' @ [SERVO_NAMES ! i] @ ''='' @ show_int (currentAngles s ! i) @ msg) s"
      using True by (subst statusLoop.simps) (simp add: print_str_print_str)
    then show ?thesis by blast
  next
    case False
    have "statusLoop out i s = print_str out [] s"
      using False by (subst statusLoop.simps) (cases out; simp add: print_str_def)
    then show ?thesis by blast
  qed
qed

lemma cmd_status_print: "\<exists>msg. msg \<noteq> [] \<and> cmd_status out s = print_str out msg s"
proof -
  obtain msg where "statusLoop out 0 (print_str out ''STATUS:'' s) = print_str out msg (print_str out ''STATUS:'' s)"
    using statusLoop_print by blast
  then have "cmd_status out s = print_str out (''STATUS:'' @ msg @ '' | SPEED='' @ show_int (moveSpeed s) @ CRLF) s"
    by (simp add: cmd_status_def println_def print_str_print_str)
  then show ?thesis by blast
qed

lemma cmd_help_print: "\<exists>msg. msg \<noteq> [] \<and> cmd_help out s = print_str out msg s"
proof -
  have "cmd_help out s = print_str out (''HELP: Send SERVOANGLE (e.g., A90 or F150). Ranges:'' @ CRLF @
      '' A: '' @ show_int (minAngles ! 0) @ ''-'' @ show_int (maxAngles ! 0) @ CRLF @
      '' B: '' @ show_int (minAngles ! 1) @ ''-'' @ show_int (maxAngles ! 1) @ CRLF @
      '' C: '' @ show_int (minAngles ! 2) @ ''-'' @ show_int (maxAngles ! 2) @ CRLF @
      '' D: '' @ show_int (minAngles ! 3) @ ''-'' @ show_int (maxAngles ! 3) @ CRLF @
      '' E: '' @ show_int (minAngles ! 4) @ ''-'' @ show_int (maxAngles ! 4) @ CRLF @
      '' F: '' @ show_int (minAngles ! 5) @ ''-'' @ show_int (maxAngles ! 5) @ CRLF) s"
    by (simp add: cmd_help_def range_line_def println_def print_str_print_str Let_def)
  then show ?thesis by blast
qed

lemma cmd_unknown_print:
  "cmd_unknown cmdStr out s = print_str out (''ERR:Unknown cmd '' @ [CHR 0x27] @ cmdStr @ [CHR 0x27] @ CRLF) s"
  by (simp add: cmd_unknown_def println_def print_str_print_str)

lemma servo_detach_frame [simp]:
  "currentAngles (servo_detach i s) = currentAngles s"
  "targetAngles (servo_detach i s) = targetAngles s"
  "activeServo (servo_detach i s) = activeServo s"
  "moveSpeed (servo_detach i s) = moveSpeed s"
  "lastMoveMs (servo_detach i s) = lastMoveMs s"
  "lastInfoMs (servo_detach i s) = lastInfoMs s"
  "btCommandBuffer (servo_detach i s) = btCommandBuffer s"
  "btBufferIndex (servo_detach i s) = btBufferIndex s"
  "led (servo_detach i s) = led s"
  "serial_out (servo_detach i s) = serial_out s"
  "bt_out (servo_detach i s) = bt_out s"
  "servos_attached (servo_detach i s) = (servos_attached s)[i := False]"
  "servo_log (servo_detach i s) = servo_log s @ [ServoDetach i]"
  by (simp_all add: servo_detach_def)

lemma servo_attach_frame [simp]:
  "currentAngles (servo_attach i p s) = currentAngles s"
  "targetAngles (servo_attach i p s) = targetAngles s"
  "activeServo (servo_attach i p s) = activeServo s"
  "moveSpeed (servo_attach i p s) = moveSpeed s"
  "lastMoveMs (servo_attach i p s) = lastMoveMs s"
  "lastInfoMs (servo_attach i p s) = lastInfoMs s"
  "btCommandBuffer (servo_attach i p s) = btCommandBuffer s"
  "btBufferIndex (servo_attach i p s) = btBufferIndex s"
  "led (servo_attach i p s) = led s"
  "serial_out (servo_attach i p s) = serial_out s"
  "bt_out (servo_attach i p s) = bt_out s"
  "servos_attached (servo_attach i p s) = (servos_attached s)[i := True]"
  "servo_log (servo_attach i p s) = servo_log s @ [ServoAttach i p]"
  by (simp_all add: servo_attach_def)

lemma detachLoop_frame [simp]:
  "currentAngles (detachLoop k i s) = currentAngles s"
  "targetAngles (detachLoop k i s) = targetAngles s"
  "activeServo (detachLoop k i s) = activeServo s"
  "moveSpeed (detachLoop k i s) = moveSpeed s"
  "lastMoveMs (detachLoop k i s) = lastMoveMs s"
  "lastInfoMs (detachLoop k i s) = lastInfoMs s"
  "btCommandBuffer (detachLoop k i s) = btCommandBuffer s"
  "btBufferIndex (detachLoop k i s) = btBufferIndex s"
  "led (detachLoop k i s) = led s"
  "serial_out (detachLoop k i s) = serial_out s"
  "bt_out (detachLoop k i s) = bt_out s"
  "length (servos_attached (detachLoop k i s)) = length (servos_attached s)"
  by (induction k i s rule: detachLoop.induct; subst detachLoop.simps; simp)+

lemma detachLoop_attached:
  "j < length (servos_attached s) \<Longrightarrow>
   servos_attached (detachLoop k i s) ! j =
     (if i \<le> j \<and> j < NUM_SERVOS \<and> int j \<noteq> k then False else servos_attached s ! j)"
proof (induction k i s rule: detachLoop.induct)
  case (1 k i s)
  show ?case
  proof (cases "i < NUM_SERVOS")
    case True
    let ?s1 = "if int i \<noteq> k \<and> servos_attached s ! i then servo_detach i s else s"
    have len: "j < length (servos_attached ?s1)" using "1.prems" by simp
    have "servos_attached (detachLoop k i s) ! j = servos_attached (detachLoop k (Suc i) ?s1) ! j"
      using True by (subst detachLoop.simps) simp
    also have "\<dots> = (if Suc i \<le> j \<and> j < NUM_SERVOS \<and> int j \<noteq> k then False
                      else servos_attached ?s1 ! j)"
      using "1.IH" [OF True len] .
    also have "\<dots> = (if i \<le> j \<and> j < NUM_SERVOS \<and> int j \<noteq> k then False
                      else servos_attached s ! j)"
      using "1.prems" True by (cases "i = j") (auto simp: nth_list_update)
    finally show ?thesis .
  next
    case False
    then show ?thesis by (subst detachLoop.simps) auto
  qed
qed

lemma detachLoop_idle:
  "\<forall>j<NUM_SERVOS. int j \<noteq> k \<longrightarrow> \<not> servos_attached s ! j \<Longrightarrow> detachLoop k i s = s"
proof (induction k i s rule: detachLoop.induct)
  case (1 k i s)
  show ?case
  proof (cases "i < NUM_SERVOS")
    case True
    then have "(if int i \<noteq> k \<and> servos_attached s ! i then servo_detach i s else s) = s"
      using "1.prems" by auto
    then show ?thesis
      using True "1.IH" [OF True] "1.prems" by (subst detachLoop.simps) simp
  next
    case False
    then show ?thesis by (subst detachLoop.simps) simp
  qed
qed

lemma findServo_range:
  "findServo u i = - 1 \<or> (\<exists>c. i \<le> c \<and> c < NUM_SERVOS \<and> findServo u i = int c \<and> u = SERVO_NAMES ! c)"
proof (induction u i rule: findServo.induct)
  case (1 u i)
  show ?case
  proof (cases "i < NUM_SERVOS")
    case True
    show ?thesis
    proof (cases "u = SERVO_NAMES ! i")
      case True
      with \<open>i < NUM_SERVOS\<close> show ?thesis by (subst (1 2) findServo.simps) auto
    next
      case False
      from 1 [OF \<open>i < NUM_SERVOS\<close> False] show ?thesis
        using \<open>i < NUM_SERVOS\<close> False
        by (subst (1 2) findServo.simps) (auto intro: Suc_leD)
    qed
  next
    case False
    then show ?thesis by (subst findServo.simps) simp
  qed
qed

lemma findServo_name: "c < NUM_SERVOS \<Longrightarrow> findServo (SERVO_NAMES ! c) 0 = int c"
proof -
  assume "c < NUM_SERVOS"
  then consider "c = 0" | "c = 1" | "c = 2" | "c = 3" | "c = 4" | "c = 5"
    unfolding NUM_SERVOS_def by linarith
  then show ?thesis
    by cases (simp_all add: findServo.simps NUM_SERVOS_def SERVO_NAMES_def)
qed

lemma inv_cong:
  assumes "servos_attached s' = servos_attached s" "currentAngles s' = currentAngles s"
    "targetAngles s' = targetAngles s" "activeServo s' = activeServo s"
  shows "wf s' = wf s" "single_active s' = single_active s" "angles_ok s' = angles_ok s"
  using assms by (simp_all add: wf_def single_active_def angles_ok_def)

lemma attachIfNeeded_frame [simp]:
  "currentAngles (attachIfNeeded i s) = currentAngles s"
  "targetAngles (attachIfNeeded i s) = targetAngles s"
  "activeServo (attachIfNeeded i s) = activeServo s"
  "moveSpeed (attachIfNeeded i s) = moveSpeed s"
  "lastMoveMs (attachIfNeeded i s) = lastMoveMs s"
  "lastInfoMs (attachIfNeeded i s) = lastInfoMs s"
  "btCommandBuffer (attachIfNeeded i s) = btCommandBuffer s"
  "btBufferIndex (attachIfNeeded i s) = btBufferIndex s"
  "led (attachIfNeeded i s) = led s"
  "serial_out (attachIfNeeded i s) = serial_out s"
  "bt_out (attachIfNeeded i s) = bt_out s"
  "length (servos_attached (attachIfNeeded i s)) = length (servos_attached s)"
  by (simp_all add: attachIfNeeded_def)

lemma cmd_move_frame:
  "currentAngles (cmd_move c a out s) = currentAngles s"
  "targetAngles (cmd_move c a out s) = (targetAngles s)[c := a]"
  "activeServo (cmd_move c a out s) = int c"
  "moveSpeed (cmd_move c a out s) = moveSpeed s"
  "lastMoveMs (cmd_move c a out s) = lastMoveMs s"
  "lastInfoMs (cmd_move c a out s) = lastInfoMs s"
  "btCommandBuffer (cmd_move c a out s) = btCommandBuffer s"
  "btBufferIndex (cmd_move c a out s) = btBufferIndex s"
  "led (cmd_move c a out s) = True"
  "length (servos_attached (cmd_move c a out s)) = length (servos_attached s)"
  by (simp_all add: cmd_move_def Let_def detachAllExcept_def println_def)

lemma cmd_move_out:
  "bt_out (cmd_move c a BTSerial s) = bt_out s @ ok_text c a @ CRLF"
  "serial_out (cmd_move c a BTSerial s) = serial_out s @ ok_text c a @ CRLF"
  "serial_out (cmd_move c a Serial s) = serial_out s @ ok_text c a @ CRLF @ ok_text c a @ CRLF"
  "bt_out (cmd_move c a Serial s) = bt_out s"
  by (simp_all add: cmd_move_def Let_def detachAllExcept_def println_def)

lemma cmd_move_attached:
  assumes "length (servos_attached s) = NUM_SERVOS" "c < NUM_SERVOS" "j < NUM_SERVOS"
  shows "servos_attached (cmd_move c a out s) ! j = (j = c)"
proof -
  let ?s1 = "if activeServo s \<noteq> - 1 \<and> activeServo s \<noteq> int c then
               (if servos_attached s ! nat (activeServo s)
                then servo_detach (nat (activeServo s)) s else s)
             else s"
  let ?s2 = "detachAllExcept (int c) ?s1"
  have len1: "length (servos_attached ?s1) = NUM_SERVOS" using assms by simp
  have at2: "servos_attached ?s2 ! k = (if int k \<noteq> int c then False else servos_attached ?s1 ! k)"
    if "k < NUM_SERVOS" for k
    using that len1 by (simp add: detachAllExcept_def detachLoop_attached)
  have len2: "length (servos_attached ?s2) = NUM_SERVOS"
    using len1 by (simp add: detachAllExcept_def)
  have "servos_attached (cmd_move c a out s) = servos_attached (attachIfNeeded c ?s2)"
    by (simp add: cmd_move_def Let_def println_def)
  moreover have "servos_attached (attachIfNeeded c ?s2) ! j = (j = c)"
    using at2 [OF assms(3)] at2 [OF assms(2)] len2 assms
    by (auto simp: attachIfNeeded_def nth_list_update)
  ultimately show ?thesis by simp
qed

lemma cmd_range_err_eq:
  "cmd_range_err c out s =
     print_str Serial (err_range_text c @ CRLF) (print_str out (err_range_text c @ CRLF) s)"
  by (simp add: cmd_range_err_def println_def)

lemma servo_name_not_keyword:
  "c < NUM_SERVOS \<Longrightarrow> SERVO_NAMES ! c \<noteq> CHR ''?'' \<and> SERVO_NAMES ! c \<noteq> CHR ''H'' \<and> SERVO_NAMES ! c \<noteq> CHR ''G''"
proof -
  assume "c < NUM_SERVOS"
  then consider "c = 0" | "c = 1" | "c = 2" | "c = 3" | "c = 4" | "c = 5"
    unfolding NUM_SERVOS_def by linarith
  then show ?thesis
    by cases (simp_all add: SERVO_NAMES_def)
qed

lemma processCommand_motion:
  assumes "c < NUM_SERVOS" "toupper ch = SERVO_NAMES ! c" "rest \<noteq> []"
  shows "processCommand (ch # rest) out s =
           (True, if minAngles ! c \<le> atoi rest \<and> atoi rest \<le> maxAngles ! c
                  then cmd_move c (atoi rest) out s else cmd_range_err c out s)"
  using assms servo_name_not_keyword [OF assms(1)] findServo_name [OF assms(1)]
  by (simp add: processCommand_def Let_def)

lemma processCommand_cases:
  assumes "cmdStr \<noteq> []"
  obtains (reply) msg where "msg \<noteq> []" "processCommand cmdStr out s = (True, print_str out msg s)"
    "toupper (hd cmdStr) \<in> {CHR ''?'', CHR ''H'', CHR ''G''} \<or>
     findServo (toupper (hd cmdStr)) 0 = - 1 \<or> length cmdStr \<le> 1"
  | (move) c where "c < NUM_SERVOS" "toupper (hd cmdStr) = SERVO_NAMES ! c" "length cmdStr > 1"
      "minAngles ! c \<le> atoi (tl cmdStr)" "atoi (tl cmdStr) \<le> maxAngles ! c"
      "processCommand cmdStr out s = (True, cmd_move c (atoi (tl cmdStr)) out s)"
  | (range) c where "c < NUM_SERVOS" "toupper (hd cmdStr) = SERVO_NAMES ! c" "length cmdStr > 1"
      "\<not> (minAngles ! c \<le> atoi (tl cmdStr) \<and> atoi (tl cmdStr) \<le> maxAngles ! c)"
      "processCommand cmdStr out s = (True, cmd_range_err c out s)"
proof -
  let ?u = "toupper (hd cmdStr)"
  show thesis
  proof (cases "?u = CHR ''?'' \<or> ?u = CHR ''H''")
    case True
    obtain msg where "msg \<noteq> []" "cmd_help out s = print_str out msg s"
      using cmd_help_print by blast
    then show ?thesis using assms True reply by (auto simp: processCommand_def Let_def)
  next
    case nh: False
    show ?thesis
    proof (cases "?u = CHR ''G''")
      case True
      obtain msg where "msg \<noteq> []" "cmd_status out s = print_str out msg s"
        using cmd_status_print by blast
      then show ?thesis using assms nh True reply by (auto simp: processCommand_def Let_def)
    next
      case ng: False
      show ?thesis
      proof (cases "findServo ?u 0 \<noteq> - 1 \<and> length cmdStr > 1")
        case False
        then have "processCommand cmdStr out s = (True, cmd_unknown cmdStr out s)"
          using assms nh ng by (auto simp: processCommand_def Let_def)
        then show ?thesis
          using reply [of "''ERR:Unknown cmd '' @ [CHR 0x27] @ cmdStr @ [CHR 0x27] @ CRLF"] False
          by (auto simp: cmd_unknown_print)
      next
        case True
        then obtain c where c: "c < NUM_SERVOS" "findServo ?u 0 = int c" "?u = SERVO_NAMES ! c"
          using findServo_range [of ?u 0] by auto
        obtain ch rest where cr: "cmdStr = ch # rest" "rest \<noteq> []"
          using True by (cases cmdStr) auto
        have pc: "processCommand cmdStr out s =
           (True, if minAngles ! c \<le> atoi rest \<and> atoi rest \<le> maxAngles ! c
                  then cmd_move c (atoi rest) out s else cmd_range_err c out s)"
          using processCommand_motion [of c ch rest out s] c cr by simp
        show ?thesis
        proof (cases "minAngles ! c \<le> atoi rest \<and> atoi rest \<le> maxAngles ! c")
          case True
          then show ?thesis using move [of c] c cr pc by simp
        next
          case False
          then have "processCommand cmdStr out s = (True, cmd_range_err c out s)"
            using pc by auto
          then show ?thesis using range [of c] c cr False by simp
        qed
      qed
    qed
  qed
qed

section \<open>The invariants are preserved\<close>

lemma wf_print_str [simp]: "wf (print_str out msg s) = wf s"
  by (simp add: wf_def)

lemma single_active_print_str [simp]: "single_active (print_str out msg s) = single_active s"
  by (simp add: single_active_def)

lemma angles_ok_print_str [simp]: "angles_ok (print_str out msg s) = angles_ok s"
  by (simp add: angles_ok_def)

lemma wf_cmd_move: "wf s \<Longrightarrow> c < NUM_SERVOS \<Longrightarrow> wf (cmd_move c a out s)"
  by (simp add: wf_def cmd_move_frame)

lemma single_active_cmd_move:
  assumes "wf s" "c < NUM_SERVOS"
  shows "single_active (cmd_move c a out s)"
proof -
  have len: "length (servos_attached s) = NUM_SERVOS" using assms(1) by (simp add: wf_def)
  have at: "servos_attached (cmd_move c a out s) ! j = (j = c)" if "j < NUM_SERVOS" for j
    using cmd_move_attached [OF len assms(2) that] .
  show ?thesis
    by (simp add: single_active_def cmd_move_frame at)
qed

lemma angles_ok_cmd_move:
  assumes "wf s" "angles_ok s" "c < NUM_SERVOS" "minAngles ! c \<le> a" "a \<le> maxAngles ! c"
  shows "angles_ok (cmd_move c a out s)"
  using assms by (auto simp: angles_ok_def wf_def cmd_move_frame nth_list_update)

lemma processCommand_wf: "wf s \<Longrightarrow> wf (snd (processCommand cmdStr out s))"
proof (cases "cmdStr = []")
  case True
  assume "wf s"
  with True show ?thesis by (simp add: processCommand_def)
next
  case False
  assume w: "wf s"
  from False show ?thesis
  proof (cases rule: processCommand_cases [where out = out and s = s])
    case (reply msg)
    then show ?thesis using w by simp
  next
    case (move c)
    then show ?thesis using w by (simp add: wf_cmd_move)
  next
    case (range c)
    then show ?thesis using w by (simp add: cmd_range_err_eq)
  qed
qed

lemma processCommand_single_active:
  assumes "wf s" "single_active s"
  shows "single_active (snd (processCommand cmdStr out s))"
proof (cases "cmdStr = []")
  case True
  with assms show ?thesis by (simp add: processCommand_def)
next
  case False
  then show ?thesis
  proof (cases rule: processCommand_cases [where out = out and s = s])
    case (reply msg)
    then show ?thesis using assms by simp
  next
    case (move c)
    then show ?thesis using assms by (simp add: single_active_cmd_move)
  next
    case (range c)
    then show ?thesis using assms by (simp add: cmd_range_err_eq)
  qed
qed

lemma processCommand_angles_ok:
  assumes "wf s" "angles_ok s"
  shows "angles_ok (snd (processCommand cmdStr out s))"
proof (cases "cmdStr = []")
  case True
  with assms show ?thesis by (simp add: processCommand_def)
next
  case False
  then show ?thesis
  proof (cases rule: processCommand_cases [where out = out and s = s])
    case (reply msg)
    then show ?thesis using assms by simp
  next
    case (move c)
    then show ?thesis using assms by (simp add: angles_ok_cmd_move)
  next
    case (range c)
    then show ?thesis using assms by (simp add: cmd_range_err_eq)
  qed
qed

lemma moveStep_stepping:
  assumes "activeServo s = int c" "c < length (currentAngles s)"
    "currentAngles s ! c \<noteq> targetAngles s ! c"
  shows "moveStep now s =
           s\<lparr>lastMoveMs := now,
             currentAngles := (currentAngles s)[c :=
               (if currentAngles s ! c < targetAngles s ! c
                then currentAngles s ! c + 1 else currentAngles s ! c - 1)],
             servo_log := servo_log s @
               [ServoWrite c (if currentAngles s ! c < targetAngles s ! c
                              then currentAngles s ! c + 1 else currentAngles s ! c - 1)]\<rparr>"
  using assms by (simp add: moveStep_def Let_def servo_write_def)

lemma moveStep_arrival:
  assumes "activeServo s = int c" "currentAngles s ! c = targetAngles s ! c"
  shows "moveStep now s =
           println BTSerial (done_text c (currentAngles s ! c))
             (println Serial (done_text c (currentAngles s ! c))
               ((if servos_attached s ! c then servo_detach c (s\<lparr>lastMoveMs := now\<rparr>)
                 else s\<lparr>lastMoveMs := now\<rparr>)\<lparr>activeServo := - 1, led := False\<rparr>))"
  using assms by (simp add: moveStep_def Let_def)

lemma moveTick_cases:
  assumes "wf s"
  obtains (rest) "activeServo s = - 1 \<or> \<not> due now s" "moveTick now s = s"
  | (step) c where "c < NUM_SERVOS" "activeServo s = int c" "due now s"
      "currentAngles s ! c \<noteq> targetAngles s ! c"
      "moveTick now s =
         s\<lparr>lastMoveMs := now,
           currentAngles := (currentAngles s)[c :=
             (if currentAngles s ! c < targetAngles s ! c
              then currentAngles s ! c + 1 else currentAngles s ! c - 1)],
           servo_log := servo_log s @
             [ServoWrite c (if currentAngles s ! c < targetAngles s ! c
                            then currentAngles s ! c + 1 else currentAngles s ! c - 1)]\<rparr>"
  | (arrive) c where "c < NUM_SERVOS" "activeServo s = int c" "due now s"
      "currentAngles s ! c = targetAngles s ! c"
      "moveTick now s =
         println BTSerial (done_text c (currentAngles s ! c))
           (println Serial (done_text c (currentAngles s ! c))
             ((if servos_attached s ! c then servo_detach c (s\<lparr>lastMoveMs := now\<rparr>)
               else s\<lparr>lastMoveMs := now\<rparr>)\<lparr>activeServo := - 1, led := False\<rparr>))"
proof (cases "activeServo s = - 1 \<or> \<not> due now s")
  case True
  then have "moveTick now s = s" by (auto simp: moveTick_def)
  with True show ?thesis by (rule rest)
next
  case False
  then have a: "activeServo s \<noteq> - 1" and d: "due now s" by auto
  from a assms have "0 \<le> activeServo s" "activeServo s < int NUM_SERVOS"
    by (simp_all add: wf_def)
  then have "nat (activeServo s) < NUM_SERVOS" "activeServo s = int (nat (activeServo s))"
    by simp_all
  then obtain c where c: "c < NUM_SERVOS" "activeServo s = int c" by blast
  have mt: "moveTick now s = moveStep now s" using a d by (simp add: moveTick_def)
  have len: "c < length (currentAngles s)" using c assms by (simp add: wf_def)
  show ?thesis
  proof (cases "currentAngles s ! c = targetAngles s ! c")
    case True
    show ?thesis using arrive [OF c d True] moveStep_arrival [OF c(2) True] mt by simp
  next
    case False
    show ?thesis using step [OF c d False] moveStep_stepping [OF c(2) len False] mt by simp
  qed
qed

lemma moveTick_wf: "wf s \<Longrightarrow> wf (moveTick now s)"
proof -
  assume w: "wf s"
  then show ?thesis
  proof (cases rule: moveTick_cases [where now = now])
    case rest
    then show ?thesis using w by simp
  next
    case (step c)
    then show ?thesis using w by (simp add: wf_def)
  next
    case (arrive c)
    then show ?thesis using w by (simp add: wf_def println_def NUM_SERVOS_def)
  qed
qed

lemma moveTick_single_active:
  assumes w: "wf s" and sa: "single_active s"
  shows "single_active (moveTick now s)"
  using w
proof (cases rule: moveTick_cases [where now = now])
  case rest
  then show ?thesis using sa by simp
next
  case (step c)
  then show ?thesis using sa by (simp add: single_active_def)
next
  case (arrive c)
  have len: "length (servos_attached s) = NUM_SERVOS" using w by (simp add: wf_def)
  from sa arrive(1,2) have on: "servos_attached s ! c"
    and off: "\<And>j. j < NUM_SERVOS \<Longrightarrow> j \<noteq> c \<Longrightarrow> \<not> servos_attached s ! j"
    by (auto simp: single_active_def)
  have "\<not> servos_attached (moveTick now s) ! j" if "j < NUM_SERVOS" for j
    using arrive(5) on off [OF that] that len
    by (cases "j = c") (simp_all add: println_def)
  moreover have "activeServo (moveTick now s) = - 1"
    using arrive(5) by (simp add: println_def)
  ultimately show ?thesis by (simp add: single_active_def)
qed

lemma moveTick_angles_ok:
  assumes w: "wf s" and ok: "angles_ok s"
  shows "angles_ok (moveTick now s)"
  using w
proof (cases rule: moveTick_cases [where now = now])
  case rest
  then show ?thesis using ok by simp
next
  case (step c)
  have len: "length (currentAngles s) = NUM_SERVOS" using w by (simp add: wf_def)
  from ok step(1) have b: "minAngles ! c \<le> currentAngles s ! c" "currentAngles s ! c \<le> maxAngles ! c"
    "minAngles ! c \<le> targetAngles s ! c" "targetAngles s ! c \<le> maxAngles ! c"
    by (simp_all add: angles_ok_def)
  show ?thesis
    unfolding angles_ok_def
  proof
    fix i assume "i \<in> set [0..<NUM_SERVOS]"
    then have i: "i < NUM_SERVOS" by simp
    from ok i have bi: "minAngles ! i \<le> currentAngles s ! i" "currentAngles s ! i \<le> maxAngles ! i"
      "minAngles ! i \<le> targetAngles s ! i" "targetAngles s ! i \<le> maxAngles ! i"
      by (simp_all add: angles_ok_def)
    show "minAngles ! i \<le> currentAngles (moveTick now s) ! i \<and>
          currentAngles (moveTick now s) ! i \<le> maxAngles ! i \<and>
          minAngles ! i \<le> targetAngles (moveTick now s) ! i \<and>
          targetAngles (moveTick now s) ! i \<le> maxAngles ! i"
      using step(4,5) b bi i len by (cases "i = c") (auto simp: nth_list_update)
  qed
next
  case (arrive c)
  then show ?thesis using ok
    by (cases "servos_attached s ! c") (simp_all add: angles_ok_def println_def)
qed

lemma wf_update [simp]:
  "wf (s\<lparr>btCommandBuffer := b\<rparr>) = wf s"
  "wf (s\<lparr>btBufferIndex := n\<rparr>) = wf s"
  "wf (s\<lparr>lastInfoMs := t\<rparr>) = wf s"
  by (simp_all add: wf_def)

lemma single_active_update [simp]:
  "single_active (s\<lparr>btCommandBuffer := b\<rparr>) = single_active s"
  "single_active (s\<lparr>btBufferIndex := n\<rparr>) = single_active s"
  "single_active (s\<lparr>lastInfoMs := t\<rparr>) = single_active s"
  by (simp_all add: single_active_def)

lemma angles_ok_update [simp]:
  "angles_ok (s\<lparr>btCommandBuffer := b\<rparr>) = angles_ok s"
  "angles_ok (s\<lparr>btBufferIndex := n\<rparr>) = angles_ok s"
  "angles_ok (s\<lparr>lastInfoMs := t\<rparr>) = angles_ok s"
  by (simp_all add: angles_ok_def)

lemma feed_wf: "wf s \<Longrightarrow> wf (feed now c s)"
  by (simp add: feed_def Let_def processCommand_wf)

lemma feed_single_active: "wf s \<Longrightarrow> single_active s \<Longrightarrow> single_active (feed now c s)"
  by (simp add: feed_def Let_def processCommand_single_active)

lemma feed_angles_ok: "wf s \<Longrightarrow> angles_ok s \<Longrightarrow> angles_ok (feed now c s)"
  by (simp add: feed_def Let_def processCommand_angles_ok)

lemma drain_inv:
  "wf s \<Longrightarrow> wf (drain now cs s)"
  "wf s \<Longrightarrow> single_active s \<Longrightarrow> single_active (drain now cs s)"
  "wf s \<Longrightarrow> angles_ok s \<Longrightarrow> angles_ok (drain now cs s)"
  by (induction cs arbitrary: s) (simp_all add: feed_wf feed_single_active feed_angles_ok)

lemma readyHint_inv [simp]:
  "wf (readyHint now s) = wf s"
  "single_active (readyHint now s) = single_active s"
  "angles_ok (readyHint now s) = angles_ok s"
  by (simp_all add: readyHint_def println_def)

lemma loop_inv:
  "wf s \<Longrightarrow> wf (loop now avail s)"
  "wf s \<Longrightarrow> single_active s \<Longrightarrow> single_active (loop now avail s)"
  "wf s \<Longrightarrow> angles_ok s \<Longrightarrow> angles_ok (loop now avail s)"
  by (simp_all add: loop_def drain_inv moveTick_wf moveTick_single_active moveTick_angles_ok)

lemma initAngles_power_on:
  "initAngles 0 power_on = power_on\<lparr>currentAngles := minAngles, targetAngles := minAngles\<rparr>"
  by (simp add: initAngles.simps power_on_def NUM_SERVOS_def minAngles_def numeral_eq_Suc)

lemma setup_sketch_core:
  "servos_attached (setup_sketch now power_on) = replicate NUM_SERVOS False"
  "currentAngles (setup_sketch now power_on) = minAngles"
  "targetAngles (setup_sketch now power_on) = minAngles"
  "activeServo (setup_sketch now power_on) = - 1"
  by (simp_all add: setup_sketch_def Let_def println_def initAngles_power_on, simp_all add: power_on_def)

lemma setup_sketch_inv:
  "wf (setup_sketch now power_on)"
  "single_active (setup_sketch now power_on)"
  "angles_ok (setup_sketch now power_on)"
proof -
  show "wf (setup_sketch now power_on)"
    by (simp add: wf_def setup_sketch_core) (simp add: minAngles_def NUM_SERVOS_def)
  show "single_active (setup_sketch now power_on)"
    by (simp add: single_active_def setup_sketch_core)
  have "minAngles ! i \<le> maxAngles ! i" if "i < NUM_SERVOS" for i
  proof -
    from that consider "i = 0" | "i = 1" | "i = 2" | "i = 3" | "i = 4" | "i = 5"
      unfolding NUM_SERVOS_def by linarith
    then show ?thesis by cases (simp_all add: minAngles_def maxAngles_def)
  qed
  then show "angles_ok (setup_sketch now power_on)"
    by (simp add: angles_ok_def setup_sketch_core)
qed

lemma reachable_inv:
  "reachable s \<Longrightarrow> wf s \<and> single_active s \<and> angles_ok s"
  by (induction rule: reachable.induct) (simp_all add: setup_sketch_inv loop_inv)

section \<open>The claims\<close>

subsection \<open>The power policy is an invariant\<close>

lemma at_most_one_true:
  "(\<forall>i<length xs. \<forall>j<length xs. xs ! i \<and> xs ! j \<longrightarrow> i = j) \<Longrightarrow>
   length (filter (\<lambda>b. b) xs) \<le> 1"
proof (induction xs)
  case Nil
  then show ?case by simp
next
  case (Cons x xs)
  have tl: "\<forall>i<length xs. \<forall>j<length xs. xs ! i \<and> xs ! j \<longrightarrow> i = j"
  proof (intro allI impI)
    fix i j assume "i < length xs" "j < length xs" "xs ! i \<and> xs ! j"
    then have "Suc i = Suc j"
      using Cons.prems [rule_format, of "Suc i" "Suc j"] by simp
    then show "i = j" by simp
  qed
  show ?case
  proof (cases x)
    case True
    have "\<not> xs ! i" if "i < length xs" for i
      using Cons.prems [rule_format, of 0 "Suc i"] that True by auto
    then have "filter (\<lambda>b. b) xs = []"
      by (auto simp: filter_empty_conv in_set_conv_nth)
    then show ?thesis by simp
  next
    case False
    then show ?thesis using Cons.IH [OF tl] by simp
  qed
qed

text \<open>
  C1. In every reachable state the power policy \<open>single_active\<close> holds: no two channels
  are attached, and the channel \<open>activeServo\<close> names is attached while all others are not.
  Command dispatch, the movement block of \<open>loop\<close> and a whole pass of \<open>loop\<close> preserve it
  (together with the shape of the state), and under it at most one attachment flag is set.
\<close>

theorem single_active_invariant:
  "(reachable s \<longrightarrow> wf s \<and> single_active s) \<and>
   (wf s \<and> single_active s \<longrightarrow>
      wf (snd (processCommand cmdStr out s)) \<and>
      single_active (snd (processCommand cmdStr out s))) \<and>
   (wf s \<and> single_active s \<longrightarrow>
      wf (moveTick now s) \<and> single_active (moveTick now s)) \<and>
   (wf s \<and> single_active s \<longrightarrow>
      wf (loop now avail s) \<and> single_active (loop now avail s)) \<and>
   (wf s \<and> single_active s \<longrightarrow> length (filter (\<lambda>b. b) (servos_attached s)) \<le> 1)"
proof -
  have "length (filter (\<lambda>b. b) (servos_attached s)) \<le> 1" if "wf s" "single_active s"
  proof (rule at_most_one_true)
    show "\<forall>i<length (servos_attached s). \<forall>j<length (servos_attached s).
            servos_attached s ! i \<and> servos_attached s ! j \<longrightarrow> i = j"
      using that by (simp add: wf_def single_active_def)
  qed
  then show ?thesis
    using reachable_inv [of s]
    by (simp add: processCommand_wf processCommand_single_active moveTick_wf
        moveTick_single_active loop_inv)
qed

theorem single_active_invariant_witness:
  "reachable (loop 50 (''a120'' @ [CHR 0x0A]) (setup_sketch 0 power_on)) \<and>
   wf (loop 50 (''a120'' @ [CHR 0x0A]) (setup_sketch 0 power_on)) \<and>
   single_active (loop 50 (''a120'' @ [CHR 0x0A]) (setup_sketch 0 power_on)) \<and>
   activeServo (loop 50 (''a120'' @ [CHR 0x0A]) (setup_sketch 0 power_on)) = 0 \<and>
   single_active (snd (processCommand ''F150'' BTSerial
     (loop 50 (''a120'' @ [CHR 0x0A]) (setup_sketch 0 power_on)))) \<and>
   single_active (moveTick 70 (loop 50 (''a120'' @ [CHR 0x0A]) (setup_sketch 0 power_on))) \<and>
   length (filter (\<lambda>b. b)
     (servos_attached (loop 50 (''a120'' @ [CHR 0x0A]) (setup_sketch 0 power_on)))) \<le> 1"
proof -
  let ?s = "loop 50 (''a120'' @ [CHR 0x0A]) (setup_sketch 0 power_on)"
  have r: "reachable ?s" by (intro reachable.intros)
  have a: "activeServo ?s = 0" by code_simp
  show ?thesis
    using single_active_invariant [of ?s "''F150''" BTSerial 70 "[]"] r a by blast
qed

subsection \<open>An accepted motion completes\<close>

lemma ticks_append: "ticks (xs @ ys) s = ticks ys (ticks xs s)"
  by (induction xs arbitrary: s) simp_all

lemma throttled_append:
  "throttled (xs @ ys) s = (throttled xs s \<and> throttled ys (ticks xs s))"
  by (induction xs arbitrary: s) auto

lemma due_schedule_throttled:
  "throttled (due_schedule n s) s \<and> length (due_schedule n s) = n"
  by (induction n arbitrary: s) (simp_all add: due_def)

lemma loop_stepping:
  assumes "wf s" "c < NUM_SERVOS" "activeServo s = int c" "due t s"
    "currentAngles s ! c \<noteq> targetAngles s ! c"
  shows "loop t [] s =
           s\<lparr>lastMoveMs := t,
             currentAngles := (currentAngles s)[c :=
               (if currentAngles s ! c < targetAngles s ! c
                then currentAngles s ! c + 1 else currentAngles s ! c - 1)],
             servo_log := servo_log s @
               [ServoWrite c (if currentAngles s ! c < targetAngles s ! c
                              then currentAngles s ! c + 1 else currentAngles s ! c - 1)]\<rparr>"
proof -
  have len: "c < length (currentAngles s)" using assms(1,2) by (simp add: wf_def)
  have mt: "moveTick t s = moveStep t s" using assms(3,4) by (simp add: moveTick_def)
  show ?thesis
    unfolding loop_def drain.simps mt moveStep_stepping [OF assms(3) len assms(5)]
    using assms(3) by (simp add: readyHint_def)
qed

lemma stepping_run:
  "wf s \<Longrightarrow> c < NUM_SERVOS \<Longrightarrow> activeServo s = int c \<Longrightarrow> throttled ts s \<Longrightarrow>
   length ts = nat \<bar>targetAngles s ! c - currentAngles s ! c\<bar> \<Longrightarrow> k \<le> length ts \<Longrightarrow>
   wf (ticks (take k ts) s) \<and>
   targetAngles (ticks (take k ts) s) = targetAngles s \<and>
   activeServo (ticks (take k ts) s) = int c \<and>
   servos_attached (ticks (take k ts) s) = servos_attached s \<and>
   bt_out (ticks (take k ts) s) = bt_out s \<and>
   serial_out (ticks (take k ts) s) = serial_out s \<and>
   \<bar>targetAngles s ! c - currentAngles (ticks (take k ts) s) ! c\<bar> = int (length ts - k)"
proof (induction ts arbitrary: s k)
  case Nil
  then show ?case by simp
next
  case (Cons t ts)
  show ?case
  proof (cases k)
    case 0
    then show ?thesis using Cons.prems by simp
  next
    case (Suc k')
    let ?cur = "currentAngles s ! c" and ?tgt = "targetAngles s ! c"
    let ?nxt = "if ?cur < ?tgt then ?cur + 1 else ?cur - 1"
    let ?s1 = "s\<lparr>lastMoveMs := t, currentAngles := (currentAngles s)[c := ?nxt],
                 servo_log := servo_log s @ [ServoWrite c ?nxt]\<rparr>"
    from Cons.prems(5) have dist: "\<bar>?tgt - ?cur\<bar> = int (Suc (length ts))" by simp
    then have ne: "?cur \<noteq> ?tgt" by auto
    from Cons.prems(4) have d: "due t s" and th: "throttled ts (loop t [] s)" by simp_all
    have l: "loop t [] s = ?s1"
      using loop_stepping [OF Cons.prems(1-3) d ne] .
    have len: "c < length (currentAngles s)" using Cons.prems(1,2) by (simp add: wf_def)
    have w1: "wf ?s1" using Cons.prems(1) by (simp add: wf_def)
    have a1: "activeServo ?s1 = int c" using Cons.prems(3) by simp
    have th1: "throttled ts ?s1" using th unfolding l .
    have n1: "currentAngles ?s1 ! c = ?nxt" using len by simp
    have t1: "targetAngles ?s1 = targetAngles s" by simp
    have d1: "length ts = nat \<bar>targetAngles ?s1 ! c - currentAngles ?s1 ! c\<bar>"
      unfolding n1 t1 using dist by (auto split: if_splits)
    have k1: "k' \<le> length ts" using Cons.prems(6) Suc by simp
    note ih = Cons.IH [OF w1 Cons.prems(2) a1 th1 d1 k1]
    have tk: "ticks (take k (t # ts)) s = ticks (take k' ts) ?s1"
      by (simp add: Suc l)
    show ?thesis
      unfolding tk using ih Suc by simp
  qed
qed

lemma loop_arrival:
  assumes "wf s" "c < NUM_SERVOS" "activeServo s = int c" "due t s"
    "currentAngles s ! c = targetAngles s ! c" "servos_attached s ! c"
  shows "currentAngles (loop t [] s) = currentAngles s \<and>
         \<not> servos_attached (loop t [] s) ! c \<and>
         activeServo (loop t [] s) = - 1 \<and>
         led (loop t [] s) = False \<and>
         (\<exists>extra. bt_out (loop t [] s) =
                    bt_out s @ done_text c (currentAngles s ! c) @ CRLF @ extra) \<and>
         (\<exists>extra. serial_out (loop t [] s) =
                    serial_out s @ done_text c (currentAngles s ! c) @ CRLF @ extra)"
proof -
  have len: "c < length (servos_attached s)" using assms(1,2) by (simp add: wf_def)
  have mt: "moveTick t s = moveStep t s" using assms(3,4) by (simp add: moveTick_def)
  let ?m = "println BTSerial (done_text c (currentAngles s ! c))
             (println Serial (done_text c (currentAngles s ! c))
               ((servo_detach c (s\<lparr>lastMoveMs := t\<rparr>))\<lparr>activeServo := - 1, led := False\<rparr>))"
  have m: "moveTick t s = ?m"
    unfolding mt moveStep_arrival [OF assms(3,5)] using assms(6) by simp
  have l: "loop t [] s = readyHint t ?m"
    by (simp add: loop_def m)
  have core: "currentAngles (readyHint t ?m) = currentAngles s"
    "servos_attached (readyHint t ?m) = (servos_attached s)[c := False]"
    "activeServo (readyHint t ?m) = - 1" "led (readyHint t ?m) = False"
    by (simp_all add: readyHint_def println_def)
  have bt: "\<exists>extra. bt_out (readyHint t ?m) =
                    bt_out s @ done_text c (currentAngles s ! c) @ CRLF @ extra"
    by (simp add: readyHint_def println_def)
  have se: "\<exists>extra. serial_out (readyHint t ?m) =
                    serial_out s @ done_text c (currentAngles s ! c) @ CRLF @ extra"
    by (simp add: readyHint_def println_def)
  show ?thesis
    unfolding l using core bt se len by simp
qed

text \<open>
  C2. Let the motion command \<open>ch # rest\<close> for channel \<open>c\<close> with angle \<open>a\<close> inside
  \<open>[minAngles ! c, maxAngles ! c]\<close> be dispatched in a well-formed state, and let passes of
  \<open>loop\<close> follow with nothing to read, each at a time at which the movement delay has
  elapsed. With \<open>d = \<bar>a - currentAngles ! c\<bar>\<close>: after \<open>k \<le> d\<close> passes the distance to \<open>a\<close>
  is \<open>d - k\<close> (one less per pass), the channel is still active and attached and nothing
  has been printed; after \<open>d\<close> passes the angle is exactly \<open>a\<close>; the next pass detaches
  the channel, clears \<open>activeServo\<close> and prints \<^verbatim>\<open>DONE:<name>=<a>\<close> on both streams (a
  READY hint may follow it). Such a sequence of passes exists, so \<open>d + 1\<close> throttled
  passes complete the motion.
\<close>

theorem motion_completes:
  assumes "wf s0" "c < NUM_SERVOS" "toupper ch = SERVO_NAMES ! c" "rest \<noteq> []"
    "atoi rest = a" "minAngles ! c \<le> a" "a \<le> maxAngles ! c"
    "s = snd (processCommand (ch # rest) out s0)"
    "length ts = nat \<bar>a - currentAngles s0 ! c\<bar>"
    "throttled (ts @ [t]) s"
  shows "(\<forall>k\<in>set [0..<Suc (length ts)].
            \<bar>a - currentAngles (ticks (take k ts) s) ! c\<bar> = int (length ts - k) \<and>
            activeServo (ticks (take k ts) s) = int c \<and>
            servos_attached (ticks (take k ts) s) ! c \<and>
            bt_out (ticks (take k ts) s) = bt_out s) \<and>
         currentAngles (ticks ts s) ! c = a \<and>
         currentAngles (ticks (ts @ [t]) s) ! c = a \<and>
         \<not> servos_attached (ticks (ts @ [t]) s) ! c \<and>
         activeServo (ticks (ts @ [t]) s) = - 1 \<and>
         (\<exists>extra. bt_out (ticks (ts @ [t]) s) = bt_out s @ done_text c a @ CRLF @ extra) \<and>
         (\<exists>extra. serial_out (ticks (ts @ [t]) s) =
                    serial_out s @ done_text c a @ CRLF @ extra) \<and>
         done_text c a = ''DONE:'' @ [SERVO_NAMES ! c] @ ''='' @ show_int a \<and>
         (\<exists>ts' t'. length ts' = length ts \<and> throttled (ts' @ [t']) s)"
proof -
  have len: "length (servos_attached s0) = NUM_SERVOS" "c < length (targetAngles s0)"
    using assms(1,2) by (simp_all add: wf_def)
  have pc: "s = cmd_move c a out s0"
    using processCommand_motion [OF assms(2-4), of out s0] assms(5-8) by simp
  have w: "wf s" unfolding pc using assms(1,2) by (rule wf_cmd_move)
  have act: "activeServo s = int c" by (simp add: pc cmd_move_frame)
  have tgt: "targetAngles s ! c = a" using len(2) by (simp add: pc cmd_move_frame)
  have cur: "currentAngles s = currentAngles s0" by (simp add: pc cmd_move_frame)
  have on: "servos_attached s ! c"
    unfolding pc using cmd_move_attached [OF len(1) assms(2) assms(2)] by simp
  have th: "throttled ts s" and dt: "due t (ticks ts s)"
    using assms(10) by (simp_all add: throttled_append)
  have dist: "length ts = nat \<bar>targetAngles s ! c - currentAngles s ! c\<bar>"
    unfolding tgt cur using assms(9) .
  note run = stepping_run [OF w assms(2) act th dist]
  have steps: "\<forall>k\<in>set [0..<Suc (length ts)].
            \<bar>a - currentAngles (ticks (take k ts) s) ! c\<bar> = int (length ts - k) \<and>
            activeServo (ticks (take k ts) s) = int c \<and>
            servos_attached (ticks (take k ts) s) ! c \<and>
            bt_out (ticks (take k ts) s) = bt_out s"
  proof
    fix k assume "k \<in> set [0..<Suc (length ts)]"
    then have k: "k \<le> length ts" by auto
    show "\<bar>a - currentAngles (ticks (take k ts) s) ! c\<bar> = int (length ts - k) \<and>
            activeServo (ticks (take k ts) s) = int c \<and>
            servos_attached (ticks (take k ts) s) ! c \<and>
            bt_out (ticks (take k ts) s) = bt_out s"
      using run [OF k] tgt on by simp
  qed
  let ?r = "ticks ts s"
  from run [of "length ts"] have r: "wf ?r" "targetAngles ?r = targetAngles s"
    "activeServo ?r = int c" "servos_attached ?r = servos_attached s"
    "bt_out ?r = bt_out s" "serial_out ?r = serial_out s"
    "\<bar>targetAngles s ! c - currentAngles ?r ! c\<bar> = 0"
    by simp_all
  have at: "currentAngles ?r ! c = a" using r(7) tgt by simp
  have eq: "currentAngles ?r ! c = targetAngles ?r ! c" using at tgt r(2) by simp
  have on': "servos_attached ?r ! c" using on r(4) by simp
  note arr = loop_arrival [OF r(1) assms(2) r(3) dt eq on']
  have fin: "ticks (ts @ [t]) s = loop t [] ?r" by (simp add: ticks_append)
  have ex: "\<exists>ts' t'. length ts' = length ts \<and> throttled (ts' @ [t']) s"
  proof -
    let ?d = "due_schedule (Suc (length ts)) s"
    have d: "throttled ?d s" "length ?d = Suc (length ts)"
      using due_schedule_throttled [of "Suc (length ts)" s] by simp_all
    then have "?d = butlast ?d @ [last ?d]" "length (butlast ?d) = length ts"
      by (simp_all del: due_schedule.simps add: snoc_eq_iff_butlast [THEN iffD1] length_greater_0_conv [THEN iffD1])
    then show ?thesis using d(1) by metis
  qed
  show ?thesis
    unfolding fin using steps at arr ex r(5,6) by (simp add: done_text_def)
qed

theorem motion_completes_witness:
  "throttled ([100, 120] @ [140]) (snd (processCommand ''C2'' BTSerial (setup_sketch 0 power_on))) \<and>
   currentAngles (setup_sketch 0 power_on) ! 2 = 0 \<and>
   currentAngles (ticks ([100, 120] @ [140])
     (snd (processCommand ''C2'' BTSerial (setup_sketch 0 power_on)))) ! 2 = 2 \<and>
   \<not> servos_attached (ticks ([100, 120] @ [140])
     (snd (processCommand ''C2'' BTSerial (setup_sketch 0 power_on)))) ! 2 \<and>
   activeServo (ticks ([100, 120] @ [140])
     (snd (processCommand ''C2'' BTSerial (setup_sketch 0 power_on)))) = - 1 \<and>
   done_text 2 2 = ''DONE:C=2''"
proof -
  let ?init = "setup_sketch 0 power_on"
  let ?s = "snd (processCommand ''C2'' BTSerial ?init)"
  have h1: "wf ?init" by code_simp
  have h2: "(2::nat) < NUM_SERVOS" by (simp add: NUM_SERVOS_def)
  have h3: "toupper CHR ''C'' = SERVO_NAMES ! 2" by code_simp
  have h4: "''2'' \<noteq> []" by simp
  have h5: "atoi ''2'' = 2" by code_simp
  have h6: "minAngles ! 2 \<le> (2::int)" by (simp add: minAngles_def)
  have h7: "(2::int) \<le> maxAngles ! 2" by (simp add: maxAngles_def)
  have h8: "?s = snd (processCommand (CHR ''C'' # ''2'') BTSerial ?init)" by simp
  have c0: "currentAngles ?init ! 2 = 0" by code_simp
  have h9: "length [100, 120 :: 32 word] = nat \<bar>2 - currentAngles ?init ! 2\<bar>"
    unfolding c0 by simp
  have h10: "throttled ([100, 120] @ [140]) ?s" by code_simp
  have dn: "done_text 2 2 = ''DONE:C=2''" by code_simp
  note r = motion_completes [OF h1 h2 h3 h4 h5 h6 h7 h8 h9 h10]
  show ?thesis
    using r h10 c0 dn by blast
qed

subsection \<open>Out-of-range requests\<close>

text \<open>
  The angle the range test sees is the \<^verbatim>\<open>int\<close> that \<^verbatim>\<open>atoi\<close> returns. For a digit
  string beyond the range of \<^verbatim>\<open>int\<close> that is the wrapped value: \<^verbatim>\<open>A65536\<close> is parsed
  as \<open>0\<close> and accepted as a move of channel A to \<open>0\<close>.
\<close>

lemma atoi_wraps:
  "atoi ''65536'' = 0 \<and> atoi ''4294967296'' = 0 \<and> atoi ''32768'' = - 32768 \<and>
   atoi ''65416'' = - 120 \<and> atoi '' -12ab'' = - 12 \<and> atoi ''x'' = 0"
  by code_simp

lemma wrapped_angle_accepted:
  "bt_out (snd (processCommand ''A65536'' BTSerial (setup_sketch 0 power_on))) =
     bt_out (setup_sketch 0 power_on) @ ''OK:A->0 (range 0-180)'' @ CRLF \<and>
   activeServo (snd (processCommand ''A65536'' BTSerial (setup_sketch 0 power_on))) = 0 \<and>
   servos_attached (snd (processCommand ''A65536'' BTSerial (setup_sketch 0 power_on))) ! 0"
  by code_simp



subsection \<open>One degree per movement step\<close>

text \<open>
  C4. In a reachable state with active channel \<open>c\<close> short of its target, a movement block
  whose delay has elapsed changes \<open>currentAngles ! c\<close> by exactly one, up if the target is
  greater and down otherwise, writes the new angle to the servo and touches no other
  angle; the distance to the target drops by one, the target is not passed, and the
  angle stays inside \<open>[minAngles ! c, maxAngles ! c]\<close>, as do all angles before and after.
\<close>

theorem step_toward_target:
  assumes "reachable s" "activeServo s = int c" "due now s"
    "currentAngles s ! c \<noteq> targetAngles s ! c"
  shows "currentAngles (moveTick now s) =
           (currentAngles s)[c := (if currentAngles s ! c < targetAngles s ! c
                                   then currentAngles s ! c + 1 else currentAngles s ! c - 1)] \<and>
         currentAngles (moveTick now s) ! c =
           (if currentAngles s ! c < targetAngles s ! c
            then currentAngles s ! c + 1 else currentAngles s ! c - 1) \<and>
         servo_log (moveTick now s) =
           servo_log s @ [ServoWrite c (currentAngles (moveTick now s) ! c)] \<and>
         targetAngles (moveTick now s) = targetAngles s \<and>
         \<bar>targetAngles s ! c - currentAngles (moveTick now s) ! c\<bar> =
           \<bar>targetAngles s ! c - currentAngles s ! c\<bar> - 1 \<and>
         (currentAngles s ! c < targetAngles s ! c \<longrightarrow>
            currentAngles (moveTick now s) ! c \<le> targetAngles s ! c) \<and>
         (targetAngles s ! c < currentAngles s ! c \<longrightarrow>
            targetAngles s ! c \<le> currentAngles (moveTick now s) ! c) \<and>
         minAngles ! c \<le> currentAngles (moveTick now s) ! c \<and>
         currentAngles (moveTick now s) ! c \<le> maxAngles ! c \<and>
         angles_ok s \<and> angles_ok (moveTick now s)"
proof -
  from reachable_inv [OF assms(1)] have w: "wf s" and ok: "angles_ok s" by simp_all
  from w assms(2) have c: "c < NUM_SERVOS" "c < length (currentAngles s)"
    by (simp_all add: wf_def)
  have mt: "moveTick now s = moveStep now s"
    using assms(2,3) by (simp add: moveTick_def)
  note st = moveStep_stepping [OF assms(2) c(2) assms(4), of now]
  have cur: "currentAngles (moveTick now s) =
           (currentAngles s)[c := (if currentAngles s ! c < targetAngles s ! c
                                   then currentAngles s ! c + 1 else currentAngles s ! c - 1)]"
    and tgt: "targetAngles (moveTick now s) = targetAngles s"
    and lg: "servo_log (moveTick now s) =
           servo_log s @ [ServoWrite c (if currentAngles s ! c < targetAngles s ! c
                              then currentAngles s ! c + 1 else currentAngles s ! c - 1)]"
    unfolding mt st by simp_all
  have nth: "currentAngles (moveTick now s) ! c =
           (if currentAngles s ! c < targetAngles s ! c
            then currentAngles s ! c + 1 else currentAngles s ! c - 1)"
    unfolding cur using c(2) by simp
  from ok c(1) have b: "minAngles ! c \<le> currentAngles s ! c" "currentAngles s ! c \<le> maxAngles ! c"
    "minAngles ! c \<le> targetAngles s ! c" "targetAngles s ! c \<le> maxAngles ! c"
    by (simp_all add: angles_ok_def)
  have ok': "angles_ok (moveTick now s)" using w ok by (rule moveTick_angles_ok)
  show ?thesis
    using cur nth lg tgt ok ok' b assms(4) by auto
qed

theorem step_toward_target_witness:
  "reachable (loop 50 (''a120'' @ [CHR 0x0A]) (setup_sketch 0 power_on)) \<and>
   activeServo (loop 50 (''a120'' @ [CHR 0x0A]) (setup_sketch 0 power_on)) = int 0 \<and>
   due 70 (loop 50 (''a120'' @ [CHR 0x0A]) (setup_sketch 0 power_on)) \<and>
   currentAngles (loop 50 (''a120'' @ [CHR 0x0A]) (setup_sketch 0 power_on)) ! 0 = 1 \<and>
   targetAngles (loop 50 (''a120'' @ [CHR 0x0A]) (setup_sketch 0 power_on)) ! 0 = 120 \<and>
   currentAngles (moveTick 70 (loop 50 (''a120'' @ [CHR 0x0A]) (setup_sketch 0 power_on))) ! 0 = 2"
proof -
  let ?s = "loop 50 (''a120'' @ [CHR 0x0A]) (setup_sketch 0 power_on)"
  have h1: "reachable ?s" by (intro reachable.intros)
  have h2: "activeServo ?s = int 0" by code_simp
  have h3: "due 70 ?s" by code_simp
  have e1: "currentAngles ?s ! 0 = 1" by code_simp
  have e2: "targetAngles ?s ! 0 = 120" by code_simp
  have h4: "currentAngles ?s ! 0 \<noteq> targetAngles ?s ! 0" unfolding e1 e2 by simp
  from step_toward_target [OF h1 h2 h3 h4]
  have "currentAngles (moveTick 70 ?s) ! 0 =
          (if currentAngles ?s ! 0 < targetAngles ?s ! 0
           then currentAngles ?s ! 0 + 1 else currentAngles ?s ! 0 - 1)"
    by blast
  then have "currentAngles (moveTick 70 ?s) ! 0 = 2" unfolding e1 e2 by simp
  then show ?thesis using h1 h2 h3 e1 e2 by blast
qed

subsection \<open>Switching channel in mid-motion\<close>

lemma cmd_move_preempt:
  assumes "wf s" "single_active s" "c1 < NUM_SERVOS" "c2 < NUM_SERVOS" "c1 \<noteq> c2"
    "activeServo s = int c1"
  shows "cmd_move c2 a out s =
           (println Serial (ok_text c2 a)
             (println out (ok_text c2 a)
               ((servo_attach c2 (SERVO_PINS ! c2) (servo_detach c1 s))
                  \<lparr>targetAngles := (targetAngles s)[c2 := a], activeServo := int c2\<rparr>)))
           \<lparr>led := True\<rparr>"
proof -
  have len: "length (servos_attached s) = NUM_SERVOS" using assms(1) by (simp add: wf_def)
  from assms(2,3,6) have on: "servos_attached s ! c1"
    and off: "\<And>j. j < NUM_SERVOS \<Longrightarrow> j \<noteq> c1 \<Longrightarrow> \<not> servos_attached s ! j"
    by (auto simp: single_active_def)
  let ?s1 = "servo_detach c1 s"
  have all_off: "\<forall>j<NUM_SERVOS. int j \<noteq> int c2 \<longrightarrow> \<not> servos_attached ?s1 ! j"
  proof (intro allI impI)
    fix j assume j: "j < NUM_SERVOS"
    show "\<not> servos_attached ?s1 ! j"
      using off [OF j] len j by (cases "j = c1") simp_all
  qed
  have d: "detachAllExcept (int c2) ?s1 = ?s1"
    unfolding detachAllExcept_def using all_off by (rule detachLoop_idle)
  have "\<not> servos_attached ?s1 ! c2"
    using off [OF assms(4)] assms(5) len assms(4) by simp
  then have a: "attachIfNeeded c2 ?s1 = servo_attach c2 (SERVO_PINS ! c2) ?s1"
    by (simp add: attachIfNeeded_def)
  have s1: "(if activeServo s \<noteq> - 1 \<and> activeServo s \<noteq> int c2 then
               (if servos_attached s ! nat (activeServo s)
                then servo_detach (nat (activeServo s)) s else s)
             else s) = ?s1"
    using assms(5,6) on by simp
  show ?thesis
    unfolding cmd_move_def Let_def s1 d a by simp
qed

text \<open>
  C5. While channel \<open>c1\<close> is active and short of its target, an accepted motion command
  for another channel \<open>c2\<close> detaches \<open>c1\<close> at once (the only \<^verbatim>\<open>Servo\<close> calls are
  \<open>detach\<close> on \<open>c1\<close> and \<open>attach\<close> on \<open>c2\<close>), leaves every current angle, so that of
  \<open>c1\<close> too, and the target of \<open>c1\<close> as they were, so \<open>c1\<close> stays short of its target, and
  makes \<open>c2\<close> the active, attached channel with the requested target.
\<close>

theorem switch_channel_mid_motion:
  assumes "wf s" "single_active s" "c1 < NUM_SERVOS" "c2 < NUM_SERVOS" "c1 \<noteq> c2"
    "activeServo s = int c1" "currentAngles s ! c1 \<noteq> targetAngles s ! c1"
    "toupper ch = SERVO_NAMES ! c2" "rest \<noteq> []"
    "minAngles ! c2 \<le> atoi rest" "atoi rest \<le> maxAngles ! c2"
  shows "servos_attached s ! c1 \<and>
         \<not> servos_attached (snd (processCommand (ch # rest) out s)) ! c1 \<and>
         servo_log (snd (processCommand (ch # rest) out s)) =
           servo_log s @ [ServoDetach c1, ServoAttach c2 (SERVO_PINS ! c2)] \<and>
         currentAngles (snd (processCommand (ch # rest) out s)) = currentAngles s \<and>
         targetAngles (snd (processCommand (ch # rest) out s)) ! c1 = targetAngles s ! c1 \<and>
         currentAngles (snd (processCommand (ch # rest) out s)) ! c1 \<noteq>
           targetAngles (snd (processCommand (ch # rest) out s)) ! c1 \<and>
         activeServo (snd (processCommand (ch # rest) out s)) = int c2 \<and>
         servos_attached (snd (processCommand (ch # rest) out s)) ! c2 \<and>
         targetAngles (snd (processCommand (ch # rest) out s)) ! c2 = atoi rest"
proof -
  have len: "length (servos_attached s) = NUM_SERVOS" "length (targetAngles s) = NUM_SERVOS"
    using assms(1) by (simp_all add: wf_def)
  have on: "servos_attached s ! c1"
    using assms(2,3,6) by (auto simp: single_active_def)
  have "processCommand (ch # rest) out s = (True, cmd_move c2 (atoi rest) out s)"
    using processCommand_motion [OF assms(4,8,9), of out s] assms(10,11) by simp
  then show ?thesis
    using on len assms(3,4,5,7)
    by (simp add: cmd_move_preempt [OF assms(1-6)] println_def nth_list_update)
qed

theorem switch_channel_mid_motion_witness:
  "wf (snd (processCommand ''A120'' BTSerial (setup_sketch 0 power_on))) \<and>
   single_active (snd (processCommand ''A120'' BTSerial (setup_sketch 0 power_on))) \<and>
   activeServo (snd (processCommand ''A120'' BTSerial (setup_sketch 0 power_on))) = int 0 \<and>
   currentAngles (snd (processCommand ''A120'' BTSerial (setup_sketch 0 power_on))) ! 0 \<noteq>
     targetAngles (snd (processCommand ''A120'' BTSerial (setup_sketch 0 power_on))) ! 0 \<and>
   \<not> servos_attached (snd (processCommand ''F150'' BTSerial
       (snd (processCommand ''A120'' BTSerial (setup_sketch 0 power_on))))) ! 0 \<and>
   servo_log (snd (processCommand ''F150'' BTSerial
       (snd (processCommand ''A120'' BTSerial (setup_sketch 0 power_on))))) =
     [ServoAttach 0 4, ServoDetach 0, ServoAttach 5 9] \<and>
   activeServo (snd (processCommand ''F150'' BTSerial
       (snd (processCommand ''A120'' BTSerial (setup_sketch 0 power_on))))) = int 5"
proof -
  let ?s = "snd (processCommand ''A120'' BTSerial (setup_sketch 0 power_on))"
  have h1: "wf ?s" by code_simp
  have h2: "single_active ?s" by code_simp
  have h3: "(0::nat) < NUM_SERVOS" by (simp add: NUM_SERVOS_def)
  have h4: "(5::nat) < NUM_SERVOS" by (simp add: NUM_SERVOS_def)
  have h5: "(0::nat) \<noteq> 5" by simp
  have h6: "activeServo ?s = int 0" by code_simp
  have h7: "currentAngles ?s ! 0 \<noteq> targetAngles ?s ! 0" by code_simp
  have h8: "toupper CHR ''F'' = SERVO_NAMES ! 5" by code_simp
  have h9: "''150'' \<noteq> []" by simp
  have h10: "minAngles ! 5 \<le> atoi ''150''" by code_simp
  have h11: "atoi ''150'' \<le> maxAngles ! 5" by code_simp
  have e: "servo_log ?s @ [ServoDetach 0, ServoAttach 5 (SERVO_PINS ! 5)] =
           [ServoAttach 0 4, ServoDetach 0, ServoAttach 5 9]" by code_simp
  note r = switch_channel_mid_motion [OF h1 h2 h3 h4 h5 h6 h7 h8 h9 h10 h11, of BTSerial]
  show ?thesis
    using r h1 h2 h6 h7 unfolding e by blast
qed

subsection \<open>Where replies are written\<close>

lemma is_motion_servo:
  assumes "c < NUM_SERVOS" "toupper (hd cmdStr) = SERVO_NAMES ! c" "length cmdStr > 1"
  shows "is_motion_cmd cmdStr"
  using assms servo_name_not_keyword [OF assms(1)] findServo_name [OF assms(1)]
  by (simp add: is_motion_cmd_def Let_def)

lemma CRLF_nonempty: "msg @ CRLF \<noteq> []"
  by (simp add: CRLF_def)

text \<open>
  C6, as amended. Every non-empty command dispatched from the Bluetooth port gets a
  non-empty reply on \<open>BTSerial\<close>. The reply is repeated on \<open>Serial\<close> exactly for motion
  commands (the acknowledgment and the range error); for help, status and unknown
  commands \<open>Serial\<close> receives nothing.
\<close>

theorem reply_channels:
  assumes "cmdStr \<noteq> []"
  shows "(is_motion_cmd cmdStr \<longrightarrow>
            (\<exists>msg. msg \<noteq> [] \<and>
               bt_out (snd (processCommand cmdStr BTSerial s)) = bt_out s @ msg \<and>
               serial_out (snd (processCommand cmdStr BTSerial s)) = serial_out s @ msg)) \<and>
         (\<not> is_motion_cmd cmdStr \<longrightarrow>
            (\<exists>msg. msg \<noteq> [] \<and>
               bt_out (snd (processCommand cmdStr BTSerial s)) = bt_out s @ msg) \<and>
            serial_out (snd (processCommand cmdStr BTSerial s)) = serial_out s)"
  using assms
proof (cases rule: processCommand_cases [where out = BTSerial and s = s])
  case (reply msg)
  from reply(3) have "\<not> is_motion_cmd cmdStr"
    by (auto simp: is_motion_cmd_def Let_def)
  moreover have "bt_out (snd (processCommand cmdStr BTSerial s)) = bt_out s @ msg"
    "serial_out (snd (processCommand cmdStr BTSerial s)) = serial_out s"
    using reply(2) by simp_all
  ultimately show ?thesis using reply(1) by blast
next
  case (move c)
  have m: "is_motion_cmd cmdStr" using move(1-3) by (rule is_motion_servo)
  have "bt_out (snd (processCommand cmdStr BTSerial s)) =
          bt_out s @ (ok_text c (atoi (tl cmdStr)) @ CRLF)"
    "serial_out (snd (processCommand cmdStr BTSerial s)) =
          serial_out s @ (ok_text c (atoi (tl cmdStr)) @ CRLF)"
    using move(6) by (simp_all add: cmd_move_out)
  moreover have "ok_text c (atoi (tl cmdStr)) @ CRLF \<noteq> []" by (rule CRLF_nonempty)
  ultimately show ?thesis using m by blast
next
  case (range c)
  have m: "is_motion_cmd cmdStr" using range(1-3) by (rule is_motion_servo)
  have "bt_out (snd (processCommand cmdStr BTSerial s)) = bt_out s @ (err_range_text c @ CRLF)"
    "serial_out (snd (processCommand cmdStr BTSerial s)) =
          serial_out s @ (err_range_text c @ CRLF)"
    using range(5) by (simp_all add: cmd_range_err_eq)
  moreover have "err_range_text c @ CRLF \<noteq> []" by (rule CRLF_nonempty)
  ultimately show ?thesis using m by blast
qed

theorem reply_channels_witness:
  "is_motion_cmd ''A120'' \<and> \<not> is_motion_cmd ''?'' \<and>
   (\<exists>msg. msg \<noteq> [] \<and>
      bt_out (snd (processCommand ''A120'' BTSerial (setup_sketch 0 power_on))) =
        bt_out (setup_sketch 0 power_on) @ msg \<and>
      serial_out (snd (processCommand ''A120'' BTSerial (setup_sketch 0 power_on))) =
        serial_out (setup_sketch 0 power_on) @ msg) \<and>
   serial_out (snd (processCommand ''?'' BTSerial (setup_sketch 0 power_on))) =
     serial_out (setup_sketch 0 power_on)"
proof -
  have m: "is_motion_cmd ''A120''" by code_simp
  have n: "\<not> is_motion_cmd ''?''" by code_simp
  have h1: "''A120'' \<noteq> []" and h2: "''?'' \<noteq> []" by simp_all
  show ?thesis
    using reply_channels [OF h1, of "setup_sketch 0 power_on"]
      reply_channels [OF h2, of "setup_sketch 0 power_on"] m n
    by blast
qed

text \<open>
  C6 as stated fails: the status line \<^verbatim>\<open>G\<close> received on the Bluetooth port and the
  unknown command \<^verbatim>\<open>Z9\<close> are answered on \<open>BTSerial\<close> only; \<open>Serial\<close> is unchanged.
\<close>

theorem status_reply_not_mirrored:
  "bt_out (drain 7 (''G'' @ [CHR 0x0A]) (setup_sketch 0 power_on)) =
     bt_out (setup_sketch 0 power_on) @
     ''STATUS: A=0 B=45 C=0 D=90 E=0 F=90 | SPEED=20'' @ CRLF \<and>
   serial_out (drain 7 (''G'' @ [CHR 0x0A]) (setup_sketch 0 power_on)) =
     serial_out (setup_sketch 0 power_on) \<and>
   bt_out (snd (processCommand ''Z9'' BTSerial (setup_sketch 0 power_on))) =
     bt_out (setup_sketch 0 power_on) @ ''ERR:Unknown cmd '' @ [CHR 0x27] @ ''Z9'' @ [CHR 0x27] @ CRLF \<and>
   serial_out (snd (processCommand ''Z9'' BTSerial (setup_sketch 0 power_on))) =
     serial_out (setup_sketch 0 power_on)"
  by code_simp

subsection \<open>Lines longer than the buffer\<close>

lemma feed_store:
  "\<not> is_eol c \<Longrightarrow> btBufferIndex s < 31 \<Longrightarrow>
   feed now c s =
     s\<lparr>btCommandBuffer := (btCommandBuffer s)[btBufferIndex s := c],
       btBufferIndex := btBufferIndex s + 1\<rparr>"
  by (simp add: feed_def)

lemma feed_drop: "\<not> is_eol c \<Longrightarrow> btBufferIndex s = 31 \<Longrightarrow> feed now c s = s"
  by (simp add: feed_def)

lemma drain_append: "drain now (xs @ ys) s = drain now ys (drain now xs s)"
  by (induction xs arbitrary: s) simp_all

lemma drain_full:
  "\<forall>c\<in>set cs. \<not> is_eol c \<Longrightarrow> btBufferIndex s = 31 \<Longrightarrow> drain now cs s = s"
  by (induction cs arbitrary: s) (simp_all add: feed_drop)

lemma drain_fill:
  "\<forall>c\<in>set cs. \<not> is_eol c \<Longrightarrow> btBufferIndex s + length cs \<le> 31 \<Longrightarrow>
   length (btCommandBuffer s) = 32 \<Longrightarrow>
   drain now cs s =
     s\<lparr>btCommandBuffer :=
         take (btBufferIndex s) (btCommandBuffer s) @ cs @
         drop (btBufferIndex s + length cs) (btCommandBuffer s),
       btBufferIndex := btBufferIndex s + length cs\<rparr>"
proof (induction cs arbitrary: s)
  case Nil
  then show ?case by simp
next
  case (Cons c cs)
  let ?k = "btBufferIndex s"
  let ?s1 = "s\<lparr>btCommandBuffer := (btCommandBuffer s)[?k := c], btBufferIndex := ?k + 1\<rparr>"
  from Cons.prems have k: "?k < 31" "?k < length (btCommandBuffer s)" by simp_all
  have f: "feed now c s = ?s1" using Cons.prems k by (simp add: feed_store)
  have tk: "take (Suc ?k) ((btCommandBuffer s)[?k := c]) = take ?k (btCommandBuffer s) @ [c]"
    using k(2) by (simp add: take_Suc_conv_app_nth)
  have "drain now cs ?s1 =
     ?s1\<lparr>btCommandBuffer :=
         take (btBufferIndex ?s1) (btCommandBuffer ?s1) @ cs @
         drop (btBufferIndex ?s1 + length cs) (btCommandBuffer ?s1),
       btBufferIndex := btBufferIndex ?s1 + length cs\<rparr>"
    using Cons.prems by (intro Cons.IH) simp_all
  then show ?case
    using tk by (simp add: f)
qed

lemma c_str_terminated: "c_str (xs @ [NUL]) = c_str xs"
proof (cases "\<forall>x\<in>set xs. x \<noteq> NUL")
  case True
  then show ?thesis by (simp add: c_str_def takeWhile_append2 takeWhile_eq_all_conv [THEN iffD2])
next
  case False
  then obtain x where "x \<in> set xs" "\<not> x \<noteq> NUL" by blast
  then show ?thesis unfolding c_str_def by (rule takeWhile_append1)
qed

lemma c_str_no_NUL: "NUL \<notin> set xs \<Longrightarrow> c_str xs = xs"
  by (auto simp: c_str_def takeWhile_eq_all_conv)

text \<open>
  C7. Forty characters, none of them a line end, followed by a line end, on an empty
  buffer: the first 31 are stored, each of the other nine is dropped without touching
  the state (the buffer keeps its 31 characters and is not reset), and the line end
  dispatches one command, the buffer's first 31 characters closed by NUL, after which
  the index is reset. The dispatcher reads that buffer as a C string, which is the 31
  characters themselves when none of them is NUL.
\<close>

theorem overlong_line_truncated:
  assumes "length (btCommandBuffer s) = 32" "btBufferIndex s = 0" "length cs = 40"
    "\<forall>c\<in>set cs. \<not> is_eol c" "is_eol t"
  shows "btBufferIndex (drain now (take 31 cs) s) = 31 \<and>
         take 31 (btCommandBuffer (drain now (take 31 cs) s)) = take 31 cs \<and>
         (\<forall>k\<in>set [31..<41]. drain now (take k cs) s = drain now (take 31 cs) s) \<and>
         drain now (cs @ [t]) s =
           (snd (processCommand (c_str (take 31 cs)) BTSerial
                  (s\<lparr>btCommandBuffer := take 31 cs @ [NUL], btBufferIndex := 31\<rparr>)))
           \<lparr>btBufferIndex := 0, lastInfoMs := now\<rparr> \<and>
         (NUL \<notin> set (take 31 cs) \<longrightarrow> c_str (take 31 cs) = take 31 cs)"
proof -
  let ?s31 = "drain now (take 31 cs) s"
  have ne: "\<forall>c\<in>set (take 31 cs). \<not> is_eol c" "\<forall>c\<in>set (drop 31 cs). \<not> is_eol c"
    using assms(4) by (auto dest: in_set_takeD in_set_dropD)
  have fill: "?s31 = s\<lparr>btCommandBuffer := take 31 cs @ drop 31 (btCommandBuffer s),
                        btBufferIndex := 31\<rparr>"
    using drain_fill [OF ne(1), of s now] assms(1,2,3) by simp
  have idx: "btBufferIndex ?s31 = 31" by (simp add: fill)
  have buf: "take 31 (btCommandBuffer ?s31) = take 31 cs"
    using assms(3) by (simp add: fill)
  have later: "drain now (take k cs) s = ?s31" if "31 \<le> k" for k
  proof -
    have "take k cs = take 31 cs @ take (k - 31) (drop 31 cs)"
      using that by (metis le_add_diff_inverse take_add)
    moreover have "\<forall>c\<in>set (take (k - 31) (drop 31 cs)). \<not> is_eol c"
      using ne(2) by (auto dest: in_set_takeD)
    ultimately show ?thesis
      using idx by (simp add: drain_append drain_full)
  qed
  have all: "drain now cs s = ?s31" using later [of 40] assms(3) by simp
  have l1: "length (drop 31 (btCommandBuffer s)) = 1" using assms(1) by simp
  then obtain z where z: "drop 31 (btCommandBuffer s) = [z]"
    by (cases "drop 31 (btCommandBuffer s)") auto
  have nulled: "(take 31 cs @ drop 31 (btCommandBuffer s))[31 := NUL] = take 31 cs @ [NUL]"
    using assms(3) by (simp add: z list_update_append)
  let ?s1 = "s\<lparr>btCommandBuffer := take 31 cs @ [NUL], btBufferIndex := 31\<rparr>"
  have st: "?s31\<lparr>btCommandBuffer := (btCommandBuffer ?s31)[btBufferIndex ?s31 := NUL]\<rparr> = ?s1"
    by (simp add: fill nulled)
  have cs1: "c_str (btCommandBuffer ?s1) = c_str (take 31 cs)"
    by (simp add: c_str_terminated)
  have "drain now (cs @ [t]) s = feed now t ?s31"
    by (simp add: drain_append all)
  also have "\<dots> =
           (snd (processCommand (c_str (btCommandBuffer ?s1)) BTSerial ?s1))
           \<lparr>btBufferIndex := 0, lastInfoMs := now\<rparr>"
    unfolding feed_def Let_def st using assms(5) idx by simp
  also have "\<dots> =
           (snd (processCommand (c_str (take 31 cs)) BTSerial ?s1))
           \<lparr>btBufferIndex := 0, lastInfoMs := now\<rparr>"
    unfolding cs1 ..
  finally have disp: "drain now (cs @ [t]) s =
           (snd (processCommand (c_str (take 31 cs)) BTSerial ?s1))
           \<lparr>btBufferIndex := 0, lastInfoMs := now\<rparr>" .
  have rng: "\<forall>k\<in>set [31..<41]. drain now (take k cs) s = ?s31"
  proof
    fix k :: nat assume "k \<in> set [31..<41]"
    then have "31 \<le> k" by auto
    then show "drain now (take k cs) s = ?s31" by (rule later)
  qed
  show ?thesis
    using idx buf rng disp c_str_no_NUL [of "take 31 cs"] by blast
qed

theorem overlong_line_truncated_witness:
  "length ''Z123456789012345678901234567890123456789'' = 40 \<and>
   bt_out (drain 7 (''Z123456789012345678901234567890123456789'' @ [CHR 0x0A])
             (setup_sketch 0 power_on)) =
     bt_out (setup_sketch 0 power_on) @
     ''ERR:Unknown cmd '' @ [CHR 0x27] @ ''Z123456789012345678901234567890'' @ [CHR 0x27] @ CRLF \<and>
   btBufferIndex (drain 7 (''Z123456789012345678901234567890123456789'' @ [CHR 0x0A])
             (setup_sketch 0 power_on)) = 0"
proof -
  let ?cs = "''Z123456789012345678901234567890123456789''"
  let ?s = "setup_sketch 0 power_on"
  let ?r = "(snd (processCommand (c_str (take 31 ?cs)) BTSerial
                  (?s\<lparr>btCommandBuffer := take 31 ?cs @ [NUL], btBufferIndex := 31\<rparr>)))
           \<lparr>btBufferIndex := 0, lastInfoMs := 7\<rparr>"
  have h1: "length (btCommandBuffer ?s) = 32" by code_simp
  have h2: "btBufferIndex ?s = 0" by code_simp
  have h3: "length ?cs = 40" by simp
  have h4: "\<forall>c\<in>set ?cs. \<not> is_eol c" by (simp add: is_eol_def)
  have h5: "is_eol (CHR 0x0A)" by (simp add: is_eol_def)
  have d: "drain 7 (?cs @ [CHR 0x0A]) ?s = ?r"
    using overlong_line_truncated [OF h1 h2 h3 h4 h5, of 7] by blast
  have e1: "bt_out ?r = bt_out ?s @
     ''ERR:Unknown cmd '' @ [CHR 0x27] @ ''Z123456789012345678901234567890'' @ [CHR 0x27] @ CRLF"
    by code_simp
  have e2: "btBufferIndex ?r = 0" by simp
  show ?thesis
    unfolding d using h3 e1 e2 by blast
qed

subsection \<open>A channel letter alone\<close>

lemma servo_letter_cases:
  assumes "ch \<in> set ''ABCDEFabcdef''"
  obtains "ch = CHR ''A''" | "ch = CHR ''B''" | "ch = CHR ''C''" | "ch = CHR ''D''"
    | "ch = CHR ''E''" | "ch = CHR ''F''" | "ch = CHR ''a''" | "ch = CHR ''b''"
    | "ch = CHR ''c''" | "ch = CHR ''d''" | "ch = CHR ''e''" | "ch = CHR ''f''"
  using assms by auto

lemma findServo_letter:
  assumes "ch \<in> set ''ABCDEFabcdef''"
  shows "findServo (toupper ch) 0 \<noteq> - 1 \<and> toupper ch \<noteq> CHR ''?'' \<and>
         toupper ch \<noteq> CHR ''H'' \<and> toupper ch \<noteq> CHR ''G''"
  using assms
  by (cases rule: servo_letter_cases)
    (simp_all add: toupper_def findServo.simps NUM_SERVOS_def SERVO_NAMES_def)

text \<open>
  C8. A command that is one channel letter and nothing else, in either case, is answered
  with \<^verbatim>\<open>ERR:Unknown cmd '<raw>'\<close> on the stream it came from, although the letter does
  name a channel (\<open>findServo\<close> finds it): the test \<^verbatim>\<open>strlen(cmdStr) > 1\<close> fails. Nothing
  but that stream changes; in particular no target is set to \<open>0\<close> and no servo is called.
\<close>

theorem bare_letter_unknown:
  assumes "ch \<in> set ''ABCDEFabcdef''"
  shows "processCommand [ch] out s =
           (True, print_str out (''ERR:Unknown cmd '' @ [CHR 0x27] @ [ch] @ [CHR 0x27] @ CRLF) s) \<and>
         findServo (toupper ch) 0 \<noteq> - 1 \<and>
         servos_attached (snd (processCommand [ch] out s)) = servos_attached s \<and>
         currentAngles (snd (processCommand [ch] out s)) = currentAngles s \<and>
         targetAngles (snd (processCommand [ch] out s)) = targetAngles s \<and>
         activeServo (snd (processCommand [ch] out s)) = activeServo s \<and>
         servo_log (snd (processCommand [ch] out s)) = servo_log s \<and>
         led (snd (processCommand [ch] out s)) = led s"
proof -
  note u = findServo_letter [OF assms]
  then have "processCommand [ch] out s = (True, cmd_unknown [ch] out s)"
    by (simp add: processCommand_def Let_def)
  then show ?thesis
    using u by (simp add: cmd_unknown_print)
qed

theorem bare_letter_unknown_witness:
  "minAngles ! 0 \<le> 0 \<and> 0 \<le> maxAngles ! 0 \<and>
   processCommand ''a'' BTSerial (setup_sketch 0 power_on) =
     (True, println BTSerial (''ERR:Unknown cmd '' @ [CHR 0x27] @ ''a'' @ [CHR 0x27])
              (setup_sketch 0 power_on)) \<and>
   targetAngles (snd (processCommand ''a'' BTSerial (setup_sketch 0 power_on))) =
     targetAngles (setup_sketch 0 power_on)"
proof -
  have h: "CHR ''a'' \<in> set ''ABCDEFabcdef''" by simp
  show ?thesis
    using bare_letter_unknown [OF h, of BTSerial "setup_sketch 0 power_on"]
    by (simp add: println_def minAngles_def maxAngles_def)
qed

subsection \<open>The state after start-up\<close>

text \<open>
  C9. Right after start-up (\<open>setup\<close> run on the power-on state) the current and the
  target angle of every channel are that channel's minimum angle, no \<^verbatim>\<open>Servo\<close> object
  is attached and none has been called, no channel is active, and the movement block of
  \<open>loop\<close> does nothing: the scheduler is idle.
\<close>

theorem startup_state:
  "currentAngles (setup_sketch now power_on) = minAngles \<and>
   targetAngles (setup_sketch now power_on) = minAngles \<and>
   servos_attached (setup_sketch now power_on) = replicate NUM_SERVOS False \<and>
   servo_log (setup_sketch now power_on) = [] \<and>
   activeServo (setup_sketch now power_on) = - 1 \<and>
   moveTick t (setup_sketch now power_on) = setup_sketch now power_on"
proof -
  have "servo_log (setup_sketch now power_on) = []"
    by (simp add: setup_sketch_def Let_def println_def initAngles_power_on) (simp add: power_on_def)
  then show ?thesis
    by (simp add: setup_sketch_core moveTick_def)
qed

theorem startup_state_witness:
  "currentAngles (setup_sketch 0 power_on) = [0, 45, 0, 90, 0, 90] \<and>
   targetAngles (setup_sketch 0 power_on) = [0, 45, 0, 90, 0, 90] \<and>
   servos_attached (setup_sketch 0 power_on) = [False, False, False, False, False, False] \<and>
   activeServo (setup_sketch 0 power_on) = - 1 \<and>
   moveTick 1000 (setup_sketch 0 power_on) = setup_sketch 0 power_on"
  using startup_state [of 0 1000]
  by (simp add: minAngles_def NUM_SERVOS_def numeral_eq_Suc)

subsection \<open>Retargeting the active channel\<close>

lemma cmd_move_active:
  assumes "wf s" "single_active s" "c < NUM_SERVOS" "activeServo s = int c"
  shows "cmd_move c a out s =
           (println Serial (ok_text c a)
             (println out (ok_text c a)
               (s\<lparr>targetAngles := (targetAngles s)[c := a], activeServo := int c\<rparr>)))\<lparr>led := True\<rparr>"
proof -
  from assms(2-4) have on: "servos_attached s ! c"
    and off: "\<forall>j<NUM_SERVOS. int j \<noteq> int c \<longrightarrow> \<not> servos_attached s ! j"
    by (auto simp: single_active_def)
  have d: "detachAllExcept (int c) s = s"
    unfolding detachAllExcept_def using off by (rule detachLoop_idle)
  have a: "attachIfNeeded c s = s" using on by (simp add: attachIfNeeded_def)
  show ?thesis
    using assms(4) by (simp add: cmd_move_def Let_def d a)
qed

text \<open>
  C10. An accepted motion command for the channel that is already active, in a state where
  the power policy holds, sets that channel's target to the new angle and leaves all
  current angles, all other targets and the attachment of every channel as they were; the
  channel stays attached and active, and no \<^verbatim>\<open>Servo\<close> call is made (the log is unchanged),
  so it is not detached and attached again.
\<close>

theorem retarget_active_channel:
  assumes "wf s" "single_active s" "c < NUM_SERVOS" "activeServo s = int c"
    "toupper ch = SERVO_NAMES ! c" "rest \<noteq> []"
    "minAngles ! c \<le> atoi rest" "atoi rest \<le> maxAngles ! c"
  shows "targetAngles (snd (processCommand (ch # rest) out s)) = (targetAngles s)[c := atoi rest] \<and>
         currentAngles (snd (processCommand (ch # rest) out s)) = currentAngles s \<and>
         servos_attached (snd (processCommand (ch # rest) out s)) = servos_attached s \<and>
         servos_attached (snd (processCommand (ch # rest) out s)) ! c \<and>
         servo_log (snd (processCommand (ch # rest) out s)) = servo_log s \<and>
         activeServo (snd (processCommand (ch # rest) out s)) = int c"
proof -
  have "processCommand (ch # rest) out s = (True, cmd_move c (atoi rest) out s)"
    using processCommand_motion [OF assms(3,5,6), of out s] assms(7,8) by simp
  moreover have "servos_attached s ! c"
    using assms(2-4) by (auto simp: single_active_def)
  ultimately show ?thesis
    by (simp add: cmd_move_active [OF assms(1-4)] println_def)
qed

theorem retarget_active_channel_witness:
  "wf (snd (processCommand ''A120'' BTSerial (setup_sketch 0 power_on))) \<and>
   single_active (snd (processCommand ''A120'' BTSerial (setup_sketch 0 power_on))) \<and>
   activeServo (snd (processCommand ''A120'' BTSerial (setup_sketch 0 power_on))) = int 0 \<and>
   targetAngles (snd (processCommand ''a30'' BTSerial
       (snd (processCommand ''A120'' BTSerial (setup_sketch 0 power_on))))) =
     [30, 45, 0, 90, 0, 90] \<and>
   servo_log (snd (processCommand ''a30'' BTSerial
       (snd (processCommand ''A120'' BTSerial (setup_sketch 0 power_on))))) =
     [ServoAttach 0 4] \<and>
   activeServo (snd (processCommand ''a30'' BTSerial
       (snd (processCommand ''A120'' BTSerial (setup_sketch 0 power_on))))) = int 0"
proof -
  let ?s = "snd (processCommand ''A120'' BTSerial (setup_sketch 0 power_on))"
  have h1: "wf ?s" by code_simp
  have h2: "single_active ?s" by code_simp
  have h3: "(0::nat) < NUM_SERVOS" by (simp add: NUM_SERVOS_def)
  have h4: "activeServo ?s = int 0" by code_simp
  have h5: "toupper CHR ''a'' = SERVO_NAMES ! 0" by code_simp
  have h6: "''30'' \<noteq> []" by simp
  have h7: "minAngles ! 0 \<le> atoi ''30''" by code_simp
  have h8: "atoi ''30'' \<le> maxAngles ! 0" by code_simp
  have e1: "(targetAngles ?s)[0 := atoi ''30''] = [30, 45, 0, 90, 0, 90]" by code_simp
  have e2: "servo_log ?s = [ServoAttach 0 4]" by code_simp
  note r = retarget_active_channel [OF h1 h2 h3 h4 h5 h6 h7 h8, of BTSerial]
  show ?thesis
    using r h1 h2 h4 unfolding e1 e2 by blast
qed

end
